theory Spec2Isabelle
  imports Main
begin

section \<open>Characters, lines and documents\<close>

text \<open>
  A line of an ABL document is a \<open>string\<close>: the list of its code units. Characters are the
  8-bit ones, on which the regular-expression class \<open>\s\<close> holds the code units 9 to 13,
  32 and 160, and on which matching with the flag \<open>i\<close> folds the ASCII letters only.
  A document is the list of its lines (\<open>doc.lineAt(k).text\<close> is \<open>doc ! k\<close>, and
  \<open>doc.lineCount\<close> is \<open>length doc\<close>).
\<close>

type_synonym document = "string list"

definition quoteChar :: char where
  "quoteChar = CHR 0x27"

text \<open>\<open>s[i]\<close>: \<open>None\<close> stands for \<open>undefined\<close> (and for the empty string of the
  \<open>cond ? s[i] : ''\<close> idiom), which no comparison and no character class accepts.\<close>

definition charAt :: "string \<Rightarrow> nat \<Rightarrow> char option" where
  "charAt s i = (if i < length s then Some (s ! i) else None)"

definition prevChar :: "string \<Rightarrow> nat \<Rightarrow> char option" where
  "prevChar s i = (if 0 < i then charAt s (i - 1) else None)"

text \<open>\<open>s.startsWith(pat, i)\<close>\<close>

definition startsWithAt :: "string \<Rightarrow> string \<Rightarrow> nat \<Rightarrow> bool" where
  "startsWithAt pat s i = (take (length pat) (drop i s) = pat)"

text \<open>\<open>/[A-Za-z0-9_]/\<close>\<close>

definition isIdentCh :: "char \<Rightarrow> bool" where
  "isIdentCh c = (let n = (of_char c :: nat) in
     (65 \<le> n \<and> n \<le> 90) \<or> (97 \<le> n \<and> n \<le> 122) \<or> (48 \<le> n \<and> n \<le> 57) \<or> n = 95)"

text \<open>\<open>/[A-Za-z_]/\<close>\<close>

definition isIdentStart :: "char \<Rightarrow> bool" where
  "isIdentStart c = (let n = (of_char c :: nat) in
     (65 \<le> n \<and> n \<le> 90) \<or> (97 \<le> n \<and> n \<le> 122) \<or> n = 95)"

text \<open>\<open>/\s/\<close>\<close>

definition isSpaceCh :: "char \<Rightarrow> bool" where
  "isSpaceCh c = (let n = (of_char c :: nat) in (9 \<le> n \<and> n \<le> 13) \<or> n = 32 \<or> n = 160)"

fun isIdentChar :: "char option \<Rightarrow> bool" where
  "isIdentChar None = False"
| "isIdentChar (Some c) = isIdentCh c"

fun isAttachPunct :: "char option \<Rightarrow> bool" where
  "isAttachPunct None = False"
| "isAttachPunct (Some ch) =
     (ch = CHR ''('' \<or> ch = CHR '')'' \<or> ch = CHR '','' \<or> ch = CHR '']'' \<or> ch = CHR ''|''
      \<or> ch = quoteChar \<or> ch = CHR 0x22 \<or> ch = CHR ''!'')"

definition isWordBoundary :: "string \<Rightarrow> nat \<Rightarrow> nat \<Rightarrow> bool" where
  "isWordBoundary text start len =
     (let before = prevChar text start;
          after = charAt text (start + len)
      in \<not> isIdentChar before \<and> \<not> isIdentChar after)"

section \<open>Quote masking\<close>

text \<open>
  \<open>stripSingleQuoted\<close>: the loop over \<open>i\<close> reads \<open>text[i]\<close> and, at a quote, the next
  character; \<open>i++; continue\<close> drops both. The recursion runs on the rest of the text, with
  the flag \<open>inQ\<close>; the result is what the loop appends to \<open>out\<close>.
\<close>

fun stripSingleQuoted_loop :: "bool \<Rightarrow> string \<Rightarrow> string" where
  "stripSingleQuoted_loop inQ [] = []"
| "stripSingleQuoted_loop inQ (ch # rest) =
     (if ch = quoteChar then
        (if inQ then
           (case rest of
              nxt # rest' \<Rightarrow>
                if nxt = quoteChar then stripSingleQuoted_loop inQ rest'
                else stripSingleQuoted_loop False rest
            | [] \<Rightarrow> stripSingleQuoted_loop False rest)
         else
           (case rest of
              nxt # rest' \<Rightarrow>
                if nxt = quoteChar then stripSingleQuoted_loop inQ rest'
                else stripSingleQuoted_loop True rest
            | [] \<Rightarrow> stripSingleQuoted_loop True rest))
      else if \<not> inQ then ch # stripSingleQuoted_loop inQ rest
      else stripSingleQuoted_loop inQ rest)"

definition stripSingleQuoted :: "string \<Rightarrow> string" where
  "stripSingleQuoted text = stripSingleQuoted_loop False text"

text \<open>\<open>stripSingleQuoted2\<close> masks instead of removing: the line keeps its length.\<close>

fun stripSingleQuoted2_loop :: "bool \<Rightarrow> string \<Rightarrow> string" where
  "stripSingleQuoted2_loop inQ [] = []"
| "stripSingleQuoted2_loop inQ (ch # rest) =
     (if ch = quoteChar then
        (if inQ then
           (case rest of
              nxt # rest' \<Rightarrow>
                if nxt = quoteChar then CHR '' '' # CHR '' '' # stripSingleQuoted2_loop inQ rest'
                else CHR '' '' # stripSingleQuoted2_loop False rest
            | [] \<Rightarrow> CHR '' '' # stripSingleQuoted2_loop False rest)
         else
           (case rest of
              nxt # rest' \<Rightarrow>
                if nxt = quoteChar then CHR '' '' # CHR '' '' # stripSingleQuoted2_loop inQ rest'
                else CHR '' '' # stripSingleQuoted2_loop True rest
            | [] \<Rightarrow> CHR '' '' # stripSingleQuoted2_loop True rest))
      else (if inQ then CHR '' '' else ch) # stripSingleQuoted2_loop inQ rest)"

definition stripSingleQuoted2 :: "string \<Rightarrow> string" where
  "stripSingleQuoted2 line = stripSingleQuoted2_loop False line"

section \<open>Regular expressions of the validators\<close>

text \<open>
  Each regular expression of the source is a function on the text it is run on. Matching
  under the flag \<open>i\<close> compares ASCII letters without their case. \<open>\b\<close> stands after a
  word character in every pattern here, so it holds when no identifier character follows.
  The greedy \<open>\s*\<close> and \<open>\s+\<close> never give a character back: what follows them in each
  pattern is no white space.
\<close>

definition lowerCh :: "char \<Rightarrow> char" where
  "lowerCh c = (let n = (of_char c :: nat) in if 65 \<le> n \<and> n \<le> 90 then char_of (n + 32) else c)"

definition startsWithCI :: "string \<Rightarrow> string \<Rightarrow> bool" where
  "startsWithCI pat s = (map lowerCh (take (length pat) s) = map lowerCh pat)"

text \<open>\<open>\b\<close> after a word character, at the head of the rest \<open>s\<close>\<close>

definition wordEnd :: "string \<Rightarrow> bool" where
  "wordEnd s = (case s of [] \<Rightarrow> True | c # _ \<Rightarrow> \<not> isIdentCh c)"

text \<open>\<open>kw\b\<close>, flag \<open>i\<close>, at the head of \<open>s\<close>\<close>

definition kwAt :: "string \<Rightarrow> string \<Rightarrow> bool" where
  "kwAt kw s = (startsWithCI kw s \<and> wordEnd (drop (length kw) s))"

text \<open>\<open>kw1\s+kw2\b\<close>, flag \<open>i\<close>, at the head of \<open>s\<close>\<close>

definition kw2At :: "string \<Rightarrow> string \<Rightarrow> string \<Rightarrow> bool" where
  "kw2At kw1 kw2 s =
     (startsWithCI kw1 s \<and>
      (case drop (length kw1) s of
         [] \<Rightarrow> False
       | c # r \<Rightarrow> isSpaceCh c \<and> kwAt kw2 (dropWhile isSpaceCh r)))"

text \<open>\<open>/^\s*@If\b/i\<close>\<close>
definition reIf :: "string \<Rightarrow> bool" where
  "reIf text = kwAt ''@If'' (dropWhile isSpaceCh text)"

text \<open>\<open>/^\s*@Else\s+If\b/i\<close>\<close>
definition reElseIf :: "string \<Rightarrow> bool" where
  "reElseIf text = kw2At ''@Else'' ''If'' (dropWhile isSpaceCh text)"

text \<open>\<open>/^\s*@End\s+If\b/i\<close>\<close>
definition reEndIf :: "string \<Rightarrow> bool" where
  "reEndIf text = kw2At ''@End'' ''If'' (dropWhile isSpaceCh text)"

text \<open>\<open>/^\s*@Function\b/i\<close> (also \<open>fnStartRe\<close>)\<close>
definition reFunction :: "string \<Rightarrow> bool" where
  "reFunction text = kwAt ''@Function'' (dropWhile isSpaceCh text)"

text \<open>\<open>/^\s*@End\s+Function\b/i\<close> (also \<open>fnEndRe\<close>)\<close>
definition reEndFunction :: "string \<Rightarrow> bool" where
  "reEndFunction text = kw2At ''@End'' ''Function'' (dropWhile isSpaceCh text)"

text \<open>\<open>/^\s*@For\b/i\<close>\<close>
definition reFor :: "string \<Rightarrow> bool" where
  "reFor text = kwAt ''@For'' (dropWhile isSpaceCh text)"

text \<open>\<open>/^\s*@End\s+For\b/i\<close>\<close>
definition reEndFor :: "string \<Rightarrow> bool" where
  "reEndFor text = kw2At ''@End'' ''For'' (dropWhile isSpaceCh text)"

text \<open>\<open>/^\s*@Then\b/i\<close>\<close>
definition reThenStart :: "string \<Rightarrow> bool" where
  "reThenStart text = kwAt ''@Then'' (dropWhile isSpaceCh text)"

text \<open>\<open>/@Then\b/i\<close>, not anchored: a match at some position of the text\<close>
fun reThenAnywhere :: "string \<Rightarrow> bool" where
  "reThenAnywhere [] = False"
| "reThenAnywhere (c # r) = (kwAt ''@Then'' (c # r) \<or> reThenAnywhere r)"

text \<open>\<open>isCommentLine\<close> and \<open>isCommentLine2\<close>: \<open>/^[ \t]*#/\<close>\<close>
definition isCommentLine :: "string \<Rightarrow> bool" where
  "isCommentLine text =
     (case dropWhile (\<lambda>c. c = CHR '' '' \<or> c = CHR 0x09) text of
        [] \<Rightarrow> False
      | c # _ \<Rightarrow> c = CHR ''#'')"

text \<open>\<open>!raw.trim()\<close>: the line has white space only\<close>
definition isBlankLine :: "string \<Rightarrow> bool" where
  "isBlankLine raw = list_all isSpaceCh raw"

text \<open>\<open>s.trim()\<close>\<close>
definition trim :: "string \<Rightarrow> string" where
  "trim s = rev (dropWhile isSpaceCh (rev (dropWhile isSpaceCh s)))"

text \<open>\<open>s.indexOf(pat)\<close>, from the offset \<open>off\<close> of \<open>s\<close> in the whole text; \<open>None\<close> is -1\<close>
fun indexOf_from :: "string \<Rightarrow> nat \<Rightarrow> string \<Rightarrow> nat option" where
  "indexOf_from pat off [] = (if pat = [] then Some off else None)"
| "indexOf_from pat off (c # r) =
     (if take (length pat) (c # r) = pat then Some off else indexOf_from pat (Suc off) r)"

definition indexOf :: "string \<Rightarrow> string \<Rightarrow> nat option" where
  "indexOf pat s = indexOf_from pat 0 s"

section \<open>Splitting a condition at top level\<close>

text \<open>
  \<open>splitByAndOrTopLevel\<close>: the loop over \<open>i\<close>, with \<open>out\<close>, \<open>start\<close>, \<open>depth\<close> and
  \<open>inQ\<close>. \<open>i++; continue\<close> and \<open>i += 2; continue\<close> go on at \<open>i + 2\<close> and \<open>i + 3\<close>.
\<close>

function splitByAndOrTopLevel_loop ::
  "string \<Rightarrow> nat \<Rightarrow> string list \<Rightarrow> nat \<Rightarrow> nat \<Rightarrow> bool \<Rightarrow> string list" where
  "splitByAndOrTopLevel_loop s i out start depth inQ =
     (if i < length s then
        (if s ! i = quoteChar then
           (if inQ then
              (if charAt s (i + 1) = Some quoteChar
               then splitByAndOrTopLevel_loop s (i + 2) out start depth inQ
               else splitByAndOrTopLevel_loop s (i + 1) out start depth False)
            else
              (if charAt s (i + 1) = Some quoteChar
               then splitByAndOrTopLevel_loop s (i + 2) out start depth inQ
               else splitByAndOrTopLevel_loop s (i + 1) out start depth True))
         else if inQ then splitByAndOrTopLevel_loop s (i + 1) out start depth inQ
         else if s ! i = CHR ''('' then splitByAndOrTopLevel_loop s (i + 1) out start (depth + 1) inQ
         else if s ! i = CHR '')'' then
           splitByAndOrTopLevel_loop s (i + 1) out start (if 0 < depth then depth - 1 else depth) inQ
         else if depth \<noteq> 0 then splitByAndOrTopLevel_loop s (i + 1) out start depth inQ
         else if startsWithAt ''And'' s i \<and> \<not> isIdentChar (prevChar s i)
                 \<and> \<not> isIdentChar (charAt s (i + 3))
         then splitByAndOrTopLevel_loop s (i + 3) (out @ [take (i - start) (drop start s)]) (i + 3) depth inQ
         else if startsWithAt ''Or'' s i \<and> \<not> isIdentChar (prevChar s i)
                 \<and> \<not> isIdentChar (charAt s (i + 2))
         then splitByAndOrTopLevel_loop s (i + 2) (out @ [take (i - start) (drop start s)]) (i + 2) depth inQ
         else splitByAndOrTopLevel_loop s (i + 1) out start depth inQ)
      else out @ [drop start s])"
  by pat_completeness auto
termination
  by (relation "measure (\<lambda>(s, i, out, start, depth, inQ). length s - i)") auto

declare splitByAndOrTopLevel_loop.simps [simp del]

definition splitByAndOrTopLevel :: "string \<Rightarrow> string list" where
  "splitByAndOrTopLevel s = splitByAndOrTopLevel_loop s 0 [] 0 0 False"

text \<open>The operators of \<open>splitCompareTopLevel\<close>, in the order the inner loop tries them.\<close>

definition compareOps :: "string list" where
  "compareOps = [''<>'', ''>='', ''<='', ''='', ''>'', ''<'']"

text \<open>The inner loop \<open>for (const op of ops)\<close> at one position: the first operator the rest
  of the text starts with.\<close>

definition opAtHead :: "string \<Rightarrow> string option" where
  "opAtHead rest = find (\<lambda>op. take (length op) rest = op) compareOps"

text \<open>
  \<open>splitCompareTopLevel\<close>: the loop state is the index \<open>i\<close>, \<open>depth\<close>, \<open>inQ\<close> and the
  text from \<open>i\<close> on (\<open>expr.startsWith(op, i)\<close> reads its head). The loop returns the index
  and the operator of the first match.
\<close>

fun splitCompareTopLevel_loop :: "nat \<Rightarrow> nat \<Rightarrow> bool \<Rightarrow> string \<Rightarrow> (nat \<times> string) option" where
  "splitCompareTopLevel_loop i depth inQ [] = None"
| "splitCompareTopLevel_loop i depth inQ (ch # rest) =
     (if ch = quoteChar then
        (if inQ then
           (case rest of
              nxt # rest' \<Rightarrow>
                if nxt = quoteChar then splitCompareTopLevel_loop (i + 2) depth inQ rest'
                else splitCompareTopLevel_loop (i + 1) depth False rest
            | [] \<Rightarrow> splitCompareTopLevel_loop (i + 1) depth False rest)
         else
           (case rest of
              nxt # rest' \<Rightarrow>
                if nxt = quoteChar then splitCompareTopLevel_loop (i + 2) depth inQ rest'
                else splitCompareTopLevel_loop (i + 1) depth True rest
            | [] \<Rightarrow> splitCompareTopLevel_loop (i + 1) depth True rest))
      else if inQ then splitCompareTopLevel_loop (i + 1) depth inQ rest
      else if ch = CHR ''('' then splitCompareTopLevel_loop (i + 1) (depth + 1) inQ rest
      else if ch = CHR '')'' then
        splitCompareTopLevel_loop (i + 1) (if 0 < depth then depth - 1 else depth) inQ rest
      else if depth \<noteq> 0 then splitCompareTopLevel_loop (i + 1) depth inQ rest
      else (case opAtHead (ch # rest) of
              Some op \<Rightarrow> Some (i, op)
            | None \<Rightarrow> splitCompareTopLevel_loop (i + 1) depth inQ rest))"

text \<open>The result \<open>{left, op, right}\<close> as a triple; \<open>None\<close> is \<open>null\<close>.\<close>

definition splitCompareTopLevel :: "string \<Rightarrow> (string \<times> string \<times> string) option" where
  "splitCompareTopLevel expr =
     (case splitCompareTopLevel_loop 0 0 False expr of
        None \<Rightarrow> None
      | Some (i, op) \<Rightarrow> Some (take i expr, op, drop (i + length op) expr))"

section \<open>Diagnostics of the block validators\<close>

datatype blockKind = IfBlock | ForBlock | FunctionBlock

text \<open>
  The messages of the source, one constructor per message text: the missing \<open>@Then\<close>, the
  unterminated string of a comparison, the end with no start and the start with no end of
  each block kind, and the undeclared variable at top level and inside a function (with the
  name the message ends with).
\<close>

datatype message =
    MissingThen
  | UnterminatedString
  | UnmatchedEnd blockKind
  | MissingEnd blockKind
  | UndeclaredGlobal string
  | UndeclaredInFunction string

text \<open>\<open>new vscode.Diagnostic(new vscode.Range(line, start, line, end), message, Error)\<close>\<close>

record diagnostic =
  dline :: nat
  dstart :: nat
  dend :: nat
  dmsg :: message

text \<open>The diagnostic over a whole line: \<open>Range(line, 0, line, text.length)\<close>\<close>

definition lineDiag :: "document \<Rightarrow> nat \<Rightarrow> message \<Rightarrow> diagnostic" where
  "lineDiag doc line m = \<lparr>dline = line, dstart = 0, dend = length (doc ! line), dmsg = m\<rparr>"

lemma length_trim_le: "length (trim s) \<le> length s"
proof -
  have "length (trim s) \<le> length (dropWhile isSpaceCh s)"
    unfolding trim_def using length_dropWhile_le [of isSpaceCh "rev (dropWhile isSpaceCh s)"] by simp
  also have "\<dots> \<le> length s" by (rule length_dropWhile_le)
  finally show ?thesis .
qed

text \<open>\<open>stripOuterParens\<close>: the loop after the first \<open>trim\<close>; \<open>t.slice(1, -1)\<close> is
  \<open>butlast (tl t)\<close>.\<close>

function stripOuterParens_loop :: "string \<Rightarrow> string" where
  "stripOuterParens_loop t =
     (if t \<noteq> [] \<and> hd t = CHR ''('' \<and> last t = CHR '')''
      then stripOuterParens_loop (trim (butlast (tl t)))
      else t)"
  by pat_completeness auto
termination
proof (relation "measure length", simp)
  fix t :: string
  assume "t \<noteq> [] \<and> hd t = CHR ''('' \<and> last t = CHR '')''"
  then have "length (butlast (tl t)) < length t" by (cases t) auto
  with length_trim_le [of "butlast (tl t)"]
  show "(trim (butlast (tl t)), t) \<in> measure length" by simp
qed

declare stripOuterParens_loop.simps [simp del]

definition stripOuterParens :: "string \<Rightarrow> string" where
  "stripOuterParens s = stripOuterParens_loop (trim s)"

definition isQuotedOperandOk :: "string \<Rightarrow> bool" where
  "isQuotedOperandOk op =
     (let t = trim (stripOuterParens op) in
      if \<not> (t \<noteq> [] \<and> hd t = quoteChar) then True
      else t \<noteq> [] \<and> last t = quoteChar)"

text \<open>
  \<open>hasThenNearNextLine\<close>: the loop over \<open>i\<close> from \<open>fromLine + 1\<close> below
  \<open>Math.min(doc.lineCount, fromLine + 3)\<close>.
\<close>

function hasThenNearNextLine_loop :: "document \<Rightarrow> nat \<Rightarrow> nat \<Rightarrow> bool" where
  "hasThenNearNextLine_loop doc bound i =
     (if i < bound then
        (if isBlankLine (doc ! i) then hasThenNearNextLine_loop doc bound (i + 1)
         else if isCommentLine (doc ! i) then hasThenNearNextLine_loop doc bound (i + 1)
         else reThenStart (doc ! i))
      else False)"
  by pat_completeness auto
termination
  by (relation "measure (\<lambda>(doc, bound, i). bound - i)") auto

declare hasThenNearNextLine_loop.simps [simp del]

definition hasThenNearNextLine :: "document \<Rightarrow> nat \<Rightarrow> bool" where
  "hasThenNearNextLine doc fromLine =
     hasThenNearNextLine_loop doc (min (length doc) (fromLine + 3)) (fromLine + 1)"

text \<open>
  The condition text of an \<open>@If\<close> / \<open>@Else If\<close> line: the text before the first \<open>@then\<close>
  of the lower-cased line, without the leading keyword (the two \<open>replace\<close> calls).
  \<open>toLowerCase\<close> keeps the length of a line of 8-bit characters, and only the ASCII
  letters matter to the search for \<open>@then\<close>, so \<open>lowerCh\<close> stands for it.
\<close>

definition conditionText :: "string \<Rightarrow> string" where
  "conditionText text =
     (let condAll = (case indexOf ''@then'' (map lowerCh text) of
                       Some thenIdx \<Rightarrow> take thenIdx text
                     | None \<Rightarrow> text);
          condAll1 = (if reIf condAll then drop 3 (dropWhile isSpaceCh condAll) else condAll);
          condAll2 = (if reElseIf condAll1
                      then drop 2 (dropWhile isSpaceCh (drop 5 (dropWhile isSpaceCh condAll1)))
                      else condAll1)
      in condAll2)"

text \<open>The loop over the parts: a diagnostic (and \<open>break\<close>) at the first part whose
  comparison has a badly quoted side.\<close>

definition quotedOperandViolation :: "string \<Rightarrow> bool" where
  "quotedOperandViolation text =
     list_ex (\<lambda>p. case splitCompareTopLevel p of
                     None \<Rightarrow> False
                   | Some (left, op, right) \<Rightarrow>
                       \<not> isQuotedOperandOk left \<or> \<not> isQuotedOperandOk right)
       (splitByAndOrTopLevel (conditionText text))"

record ifState =
  diagnostics :: "diagnostic list"
  ifStack :: "nat list"
  funcStack :: "nat list"

text \<open>
  The body of the line loop of \<open>provideIfDiagnostics\<close>. A stack is the array of the source:
  \<open>push\<close> appends, \<open>pop\<close> removes the last element.
\<close>

definition ifLineStep :: "document \<Rightarrow> nat \<Rightarrow> ifState \<Rightarrow> ifState" where
  "ifLineStep doc line st =
     (let text = doc ! line in
      if isCommentLine text then st
      else if reIf text \<or> reElseIf text then
        (let hasThenSameLine = reThenAnywhere text;
             hasThen = (if hasThenSameLine then True else hasThenNearNextLine doc line);
             d1 = (if \<not> hasThen then [lineDiag doc line MissingThen] else []);
             d2 = (if quotedOperandViolation text then [lineDiag doc line UnterminatedString] else [])
         in st\<lparr>diagnostics := diagnostics st @ d1 @ d2,
               ifStack := (if reIf text then ifStack st @ [line] else ifStack st)\<rparr>)
      else
        (let st1 = (if reEndIf text then
                      (if ifStack st = []
                       then st\<lparr>diagnostics := diagnostics st @ [lineDiag doc line (UnmatchedEnd IfBlock)]\<rparr>
                       else st\<lparr>ifStack := butlast (ifStack st)\<rparr>)
                    else st)
         in if reFunction text then st1\<lparr>funcStack := funcStack st1 @ [line]\<rparr>
            else if reEndFunction text then
              (if funcStack st1 = []
               then st1\<lparr>diagnostics := diagnostics st1 @ [lineDiag doc line (UnmatchedEnd FunctionBlock)]\<rparr>
               else st1\<lparr>funcStack := butlast (funcStack st1)\<rparr>)
            else st1))"

record forState =
  forDiagnostics :: "diagnostic list"
  forStack :: "nat list"

definition forLineStep :: "document \<Rightarrow> nat \<Rightarrow> forState \<Rightarrow> forState" where
  "forLineStep doc line st =
     (let text = doc ! line in
      if isCommentLine text then st
      else if reFor text then st\<lparr>forStack := forStack st @ [line]\<rparr>
      else if reEndFor text then
        (if forStack st = []
         then st\<lparr>forDiagnostics := forDiagnostics st @ [lineDiag doc line (UnmatchedEnd ForBlock)]\<rparr>
         else st\<lparr>forStack := butlast (forStack st)\<rparr>)
      else st)"

text \<open>\<open>provideForDiagnostics(doc, diagnostics)\<close> appends to the list it is given.\<close>

definition provideForDiagnostics :: "document \<Rightarrow> diagnostic list \<Rightarrow> diagnostic list" where
  "provideForDiagnostics doc ds =
     (let st = fold (forLineStep doc) [0..<length doc] \<lparr>forDiagnostics = ds, forStack = []\<rparr>
      in forDiagnostics st @ map (\<lambda>line. lineDiag doc line (MissingEnd ForBlock)) (forStack st))"

text \<open>\<open>provideIfDiagnostics\<close> on a document of the language: the list it hands to
  \<open>diag.set\<close>.\<close>

definition provideIfDiagnostics :: "document \<Rightarrow> diagnostic list" where
  "provideIfDiagnostics doc =
     (let st = fold (ifLineStep doc) [0..<length doc]
                 \<lparr>diagnostics = [], ifStack = [], funcStack = []\<rparr>;
          ds = diagnostics st
               @ map (\<lambda>line. lineDiag doc line (MissingEnd IfBlock)) (ifStack st)
               @ map (\<lambda>line. lineDiag doc line (MissingEnd FunctionBlock)) (funcStack st)
      in provideForDiagnostics doc ds)"

section \<open>The declaration and use validator\<close>

text \<open>The identifier \<open>[A-Za-z_][A-Za-z0-9_]*\<close> at the head of a text (greedy), and the
  rest after it.\<close>

fun identAt :: "string \<Rightarrow> (string \<times> string) option" where
  "identAt [] = None"
| "identAt (c # r) =
     (if isIdentStart c then Some (c # takeWhile isIdentCh r, dropWhile isIdentCh r) else None)"

text \<open>\<open>\s+\<close> at the head of a text: the rest after it.\<close>

fun spaces1 :: "string \<Rightarrow> string option" where
  "spaces1 [] = None"
| "spaces1 (c # r) = (if isSpaceCh c then Some (dropWhile isSpaceCh r) else None)"

text \<open>
  \<open>fnNameRe\<close>, \<open>/^\s*@Function\s+([A-Za-z_][A-Za-z0-9_]*)\s*(?:\(|$)/i\<close>: the captured
  name. No shorter match of the greedy parts helps: a shorter identifier is followed by
  an identifier character, shorter white space by white space.
\<close>

definition fnNameRe :: "string \<Rightarrow> string option" where
  "fnNameRe text =
     (let r0 = dropWhile isSpaceCh text in
      if startsWithCI ''@Function'' r0 then
        (case spaces1 (drop 9 r0) of
           None \<Rightarrow> None
         | Some r2 \<Rightarrow>
             (case identAt r2 of
                None \<Rightarrow> None
              | Some (name, r3) \<Rightarrow>
                  (let r4 = dropWhile isSpaceCh r3 in
                   if r4 = [] \<or> hd r4 = CHR ''('' then Some name else None)))
      else None)"

text \<open>\<open>declRe\<close>, \<open>/^\s*@(String|Int)\s+([A-Za-z_][A-Za-z0-9_]*)\b/i\<close>: the captured
  name, with the alternative \<open>String\<close> tried before \<open>Int\<close>.\<close>

definition declAfter :: "string \<Rightarrow> string \<Rightarrow> string option" where
  "declAfter kw r0 =
     (if startsWithCI kw r0 then
        (case spaces1 (drop (length kw) r0) of
           None \<Rightarrow> None
         | Some r2 \<Rightarrow> map_option fst (identAt r2))
      else None)"

definition declRe :: "string \<Rightarrow> string option" where
  "declRe text =
     (let r0 = dropWhile isSpaceCh text in
      case declAfter ''@String'' r0 of
        Some name \<Rightarrow> Some name
      | None \<Rightarrow> declAfter ''@Int'' r0)"

text \<open>
  The two use patterns, \<open>setUseRe = /@Set\s+([A-Za-z_][A-Za-z0-9_]*)\b/g\<close> and
  \<open>getUseRe = /@Get\(\s*([A-Za-z_][A-Za-z0-9_]*)\s*\)/g\<close>. A match at the head of a
  text gives the captured name and the length of the match.
\<close>

datatype usePattern = SetUse | GetUse

fun matchUse :: "usePattern \<Rightarrow> string \<Rightarrow> (string \<times> nat) option" where
  "matchUse SetUse s =
     (if take 4 s = ''@Set'' then
        (case spaces1 (drop 4 s) of
           None \<Rightarrow> None
         | Some r2 \<Rightarrow>
             (case identAt r2 of
                None \<Rightarrow> None
              | Some (name, r3) \<Rightarrow> Some (name, length s - length r3)))
      else None)"
| "matchUse GetUse s =
     (if take 5 s = ''@Get('' then
        (case identAt (dropWhile isSpaceCh (drop 5 s)) of
           None \<Rightarrow> None
         | Some (name, r2) \<Rightarrow>
             (case dropWhile isSpaceCh r2 of
                [] \<Rightarrow> None
              | c # r4 \<Rightarrow> if c = CHR '')'' then Some (name, length s - length r4) else None))
      else None)"

lemma identAt_shorter: "identAt s = Some (name, r) \<Longrightarrow> length r < length s"
proof (cases s)
  case Nil
  assume "identAt s = Some (name, r)"
  with Nil show ?thesis by simp
next
  case (Cons c t)
  assume "identAt s = Some (name, r)"
  with Cons have "r = dropWhile isIdentCh t" by (simp split: if_splits)
  with Cons length_dropWhile_le [of isIdentCh t] show ?thesis by simp
qed

lemma spaces1_shorter: "spaces1 s = Some r \<Longrightarrow> length r < length s"
proof (cases s)
  case Nil
  assume "spaces1 s = Some r"
  with Nil show ?thesis by simp
next
  case (Cons c t)
  assume "spaces1 s = Some r"
  with Cons have "r = dropWhile isSpaceCh t" by (simp split: if_splits)
  with Cons length_dropWhile_le [of isSpaceCh t] show ?thesis by simp
qed

lemma matchUse_positive:
  assumes "matchUse p s = Some (name, len)"
  shows "0 < len \<and> len \<le> length s"
proof (cases p)
  case SetUse
  with assms obtain r2 r3 where "spaces1 (drop 4 s) = Some r2" "identAt r2 = Some (name, r3)"
    and len: "len = length s - length r3"
    by (auto split: if_splits option.splits)
  from spaces1_shorter [OF this(1)] identAt_shorter [OF this(2)]
  have "length r3 < length s" by simp
  with len show ?thesis by simp
next
  case GetUse
  with assms obtain r2 c r4 where "identAt (dropWhile isSpaceCh (drop 5 s)) = Some (name, r2)"
    "dropWhile isSpaceCh r2 = c # r4" and len: "len = length s - length r4"
    by (auto split: if_splits option.splits list.splits)
  from identAt_shorter [OF this(1)] length_dropWhile_le [of isSpaceCh "drop 5 s"]
    length_dropWhile_le [of isSpaceCh r2] this(2)
  have "length r4 < length s" by simp
  with len show ?thesis by simp
qed

text \<open>
  The loop \<open>for (let m; (m = re.exec(text)); )\<close> of a global pattern: every match from
  left to right, the search going on where the last match ended. Each match is given as
  \<open>(m.index, m[0], m[1])\<close>; \<open>off\<close> is the index of the text \<open>s\<close> in the whole line.
\<close>

function execAll :: "usePattern \<Rightarrow> nat \<Rightarrow> string \<Rightarrow> (nat \<times> string \<times> string) list" where
  "execAll p off s =
     (if s = [] then []
      else (case matchUse p s of
              Some (name, len) \<Rightarrow> (off, take len s, name) # execAll p (off + len) (drop len s)
            | None \<Rightarrow> execAll p (off + 1) (tl s)))"
  by pat_completeness auto
termination
proof (relation "measure (\<lambda>(p, off, s). length s)", simp)
  fix p :: usePattern and off :: nat and s :: string and x2 name len
  assume "s \<noteq> []" "matchUse p s = Some x2" "(name, len) = x2"
  then have "matchUse p s = Some (name, len)" by simp
  from matchUse_positive [OF this] \<open>s \<noteq> []\<close>
  show "((p, off + len, drop len s), p, off, s) \<in> measure (\<lambda>(p, off, s). length s)" by simp
next
  fix p :: usePattern and off :: nat and s :: string
  assume "s \<noteq> []" "matchUse p s = None"
  then show "((p, off + 1, tl s), p, off, s) \<in> measure (\<lambda>(p, off, s). length s)"
    by (cases s) simp_all
qed

declare execAll.simps [simp del]

text \<open>\<open>s.lastIndexOf(pat)\<close>; \<open>None\<close> is -1.\<close>

definition lastIndexOf :: "string \<Rightarrow> string \<Rightarrow> nat option" where
  "lastIndexOf pat s = find (\<lambda>i. startsWithAt pat s i) (rev [0..<Suc (length s)])"

text \<open>
  The start column of the name of a use: \<open>m.index + m[0].lastIndexOf(name)\<close> for
  \<open>@Set\<close>, \<open>m.index + m[0].indexOf(name)\<close> for \<open>@Get\<close>. The name is part of the match,
  so the search finds it.
\<close>

fun useNameStart :: "usePattern \<Rightarrow> nat \<times> string \<times> string \<Rightarrow> nat" where
  "useNameStart SetUse (idx, whole, name) =
     idx + (case lastIndexOf name whole of Some k \<Rightarrow> k | None \<Rightarrow> 0)"
| "useNameStart GetUse (idx, whole, name) =
     idx + (case indexOf name whole of Some k \<Rightarrow> k | None \<Rightarrow> 0)"

text \<open>\<open>buildFuncLineMap\<close>: the function index of each line, -1 outside every function.
  The state of the loop is \<open>funcIdx\<close>, \<open>inFunc\<close> and the entries written so far.\<close>

fun funcLineStep :: "string \<Rightarrow> int \<times> bool \<times> int list \<Rightarrow> int \<times> bool \<times> int list" where
  "funcLineStep raw (funcIdx, inFunc, out) =
     (if reFunction raw then (funcIdx + 1, True, out @ [funcIdx + 1])
      else (funcIdx, (if reEndFunction raw then False else inFunc),
            out @ [if inFunc then funcIdx else - 1]))"

definition buildFuncLineMap :: "document \<Rightarrow> int list" where
  "buildFuncLineMap doc = snd (snd (fold funcLineStep doc (- 1, False, [])))"

text \<open>\<open>buildFuncNameMap\<close>: the name of each function whose first line names one.\<close>

fun funcNameStep :: "string \<Rightarrow> int \<times> (int \<rightharpoonup> string) \<Rightarrow> int \<times> (int \<rightharpoonup> string)" where
  "funcNameStep raw (funcIdx, names) =
     (if reFunction raw then
        (case fnNameRe raw of
           Some name \<Rightarrow> (funcIdx + 1, names(funcIdx + 1 \<mapsto> name))
         | None \<Rightarrow> (funcIdx + 1, names))
      else (funcIdx, names))"

definition buildFuncNameMap :: "document \<Rightarrow> (int \<rightharpoonup> string)" where
  "buildFuncNameMap doc = snd (fold funcNameStep doc (- 1, Map.empty))"

text \<open>
  The state of \<open>provideUndeclaredVarDiagnostics\<close>: the diagnostics, \<open>globalDeclared\<close> and
  \<open>localDeclaredByFunc\<close> (\<open>getLocalSet\<close> gives the empty set for a function with no
  entry yet, so the map is a function from the index to a set).
\<close>

record varState =
  vdiagnostics :: "diagnostic list"
  globalDeclared :: "string set"
  localDeclaredByFunc :: "int \<Rightarrow> string set"

text \<open>\<open>allowedInThisLine\<close>\<close>

definition allowedInThisLine :: "varState \<Rightarrow> int \<Rightarrow> string \<Rightarrow> bool" where
  "allowedInThisLine st funcId name =
     (if funcId = - 1 then name \<in> globalDeclared st
      else name \<in> localDeclaredByFunc st funcId \<or> name \<in> globalDeclared st)"

text \<open>The diagnostic of a use that is not allowed, over the columns of the name.\<close>

definition useDiag :: "usePattern \<Rightarrow> nat \<Rightarrow> int \<Rightarrow> nat \<times> string \<times> string \<Rightarrow> diagnostic" where
  "useDiag p line funcId m =
     (case m of (idx, whole, name) \<Rightarrow>
        \<lparr>dline = line,
         dstart = useNameStart p m,
         dend = useNameStart p m + length name,
         dmsg = (if funcId = - 1 then UndeclaredGlobal name else UndeclaredInFunction name)\<rparr>)"

definition useDiags :: "usePattern \<Rightarrow> varState \<Rightarrow> nat \<Rightarrow> int \<Rightarrow> string \<Rightarrow> diagnostic list" where
  "useDiags p st line funcId text =
     map (useDiag p line funcId)
       (filter (\<lambda>(idx, whole, name). \<not> allowedInThisLine st funcId name) (execAll p 0 text))"

text \<open>The body of the line loop of \<open>provideUndeclaredVarDiagnostics\<close>.\<close>

definition varLineStep :: "document \<Rightarrow> int list \<Rightarrow> nat \<Rightarrow> varState \<Rightarrow> varState" where
  "varLineStep doc lineToFunc line st =
     (let raw = doc ! line in
      if isBlankLine raw then st
      else if isCommentLine raw then st
      else
        (let funcId = lineToFunc ! line;
             text = stripSingleQuoted2 raw
         in case fnNameRe text of
              Some funcName \<Rightarrow>
                (if funcId \<noteq> - 1
                 then st\<lparr>localDeclaredByFunc :=
                          (localDeclaredByFunc st)(funcId := insert funcName (localDeclaredByFunc st funcId))\<rparr>
                 else st)
            | None \<Rightarrow>
                (case declRe text of
                   Some varName \<Rightarrow>
                     (if funcId = - 1
                      then st\<lparr>globalDeclared := insert varName (globalDeclared st)\<rparr>
                      else st\<lparr>localDeclaredByFunc :=
                               (localDeclaredByFunc st)(funcId := insert varName (localDeclaredByFunc st funcId))\<rparr>)
                 | None \<Rightarrow>
                     st\<lparr>vdiagnostics := vdiagnostics st
                          @ useDiags SetUse st line funcId text
                          @ useDiags GetUse st line funcId text\<rparr>)))"

text \<open>The state after the first \<open>n\<close> lines of the walk.\<close>

definition varStateAfter :: "document \<Rightarrow> nat \<Rightarrow> varState" where
  "varStateAfter doc n =
     fold (varLineStep doc (buildFuncLineMap doc)) [0..<n]
       \<lparr>vdiagnostics = [], globalDeclared = {}, localDeclaredByFunc = (\<lambda>funcId. {})\<rparr>"

text \<open>\<open>provideUndeclaredVarDiagnostics\<close> on a document of the language: the list it hands
  to \<open>varDiag.set\<close>.\<close>

definition provideUndeclaredVarDiagnostics :: "document \<Rightarrow> diagnostic list" where
  "provideUndeclaredVarDiagnostics doc = vdiagnostics (varStateAfter doc (length doc))"

section \<open>The semantic token classifier\<close>

datatype TokenKind =
    ablMap | ablFunc | ablLogic | ablData | ablFunctionDecl | ablFunctionEnd
  | ablFunctionCall | ablReturn

datatype CtxKind = CtxMap | CtxFunc | CtxFunctionCall

fun ctxToken :: "CtxKind \<Rightarrow> TokenKind" where
  "ctxToken CtxMap = ablMap"
| "ctxToken CtxFunc = ablFunc"
| "ctxToken CtxFunctionCall = ablFunctionCall"

record Frame =
  frameKind :: CtxKind
  frameDepth :: int

text \<open>
  A token as \<open>pushToken\<close> hands it to the builder: \<open>doc.positionAt(baseOffset + start)\<close>
  is the position \<open>(line, start)\<close>, since every start pushed lies within the line.
\<close>

record token =
  tline :: nat
  tstart :: nat
  tlen :: nat
  tkind :: TokenKind

definition mkToken :: "nat \<Rightarrow> nat \<Rightarrow> nat \<Rightarrow> TokenKind \<Rightarrow> token" where
  "mkToken line start len k = \<lparr>tline = line, tstart = start, tlen = len, tkind = k\<rparr>"

text \<open>The tables \<open>BUILTIN_FUNCTIONS\<close>, \<open>WRITER_KEYWORDS\<close> (the two kinds of
  \<open>FUNCTION_META\<close>) and \<open>AT_CONTROL_WORDS\<close>.\<close>

definition BUILTIN_FUNCTIONS :: "string list" where
  "BUILTIN_FUNCTIONS =
     [''Get'', ''Set'', ''UpperCase'', ''LowerCase'', ''SubString'', ''Replace'', ''Length'',
      ''LengthB'', ''Pos'', ''FilePath'', ''Trim'', ''Naming'', ''SysDateTime'', ''GetTabSpace'',
      ''GetSpace'', ''GetTokenSpace'', ''Prespace'', ''Pretab'', ''Space'',
      ''SetQueryClear'', ''SetQueryAdd'', ''GetSelectQueryResult'', ''QueryExecution'',
      ''QueryResultToMap'',
      ''GenerationCreateFile'', ''Tobe_File_Path'', ''Tobe_File_Name'']"

definition WRITER_KEYWORDS :: "string list" where
  "WRITER_KEYWORDS =
     [''Data'', ''Base'', ''AddLine'', ''InsertLine'', ''AddLinePrespace'', ''InsertLinePrespace'']"

definition AT_CONTROL_WORDS :: "string list" where
  "AT_CONTROL_WORDS =
     [''If'', ''Then'', ''Else'', ''For'', ''End'', ''Break'', ''Continue'', ''Function'']"

text \<open>\<open>while (j < lineText.length && /\s/.test(lineText[j])) j++\<close>, and the same loop
  over another character class: the value of \<open>j\<close> after it.\<close>

definition skipWhileFrom :: "(char \<Rightarrow> bool) \<Rightarrow> string \<Rightarrow> nat \<Rightarrow> nat" where
  "skipWhileFrom P line j = j + length (takeWhile P (drop j line))"

definition skipSpacesFrom :: "string \<Rightarrow> nat \<Rightarrow> nat" where
  "skipSpacesFrom line j = skipWhileFrom isSpaceCh line j"

text \<open>\<open>if (lineText[j] === '@') j++\<close>: the value of \<open>j\<close> after it.\<close>

definition skipAt :: "string \<Rightarrow> nat \<Rightarrow> nat" where
  "skipAt lineText j = (if charAt lineText j = Some (CHR ''@'') then j + 1 else j)"

text \<open>\<open>if (!isIf && lineText.startsWith('If', j)) j += 2\<close>: the value of \<open>j\<close> after it.\<close>

definition skipIfWord :: "string \<Rightarrow> bool \<Rightarrow> nat \<Rightarrow> nat" where
  "skipIfWord lineText isIf j = (if \<not> isIf \<and> startsWithAt ''If'' lineText j then j + 2 else j)"

text \<open>\<open>getCallParenIndex\<close>; \<open>None\<close> is \<open>null\<close>.\<close>

definition getCallParenIndex :: "string \<Rightarrow> nat \<Rightarrow> nat \<Rightarrow> nat option" where
  "getCallParenIndex lineText startAt nameLen =
     (let j = startAt + 1 + nameLen;
          j1 = skipAt lineText j;
          j2 = skipSpacesFrom lineText j1
      in if charAt lineText j2 = Some (CHR ''('') then Some j2 else None)"

text \<open>\<open>/@Function\s+([A-Za-z_][A-Za-z0-9_]*)/\<close> run on a slice: the first match from the
  left, as the name \<open>mm[1]\<close> and the matched text \<open>mm[0]\<close>.\<close>

definition matchFunctionName :: "string \<Rightarrow> (string \<times> string) option" where
  "matchFunctionName s =
     (if take 9 s = ''@Function'' then
        (case spaces1 (drop 9 s) of
           None \<Rightarrow> None
         | Some r2 \<Rightarrow>
             (case identAt r2 of
                None \<Rightarrow> None
              | Some (name, r3) \<Rightarrow> Some (name, take (length s - length r3) s)))
      else None)"

fun searchFunctionName :: "string \<Rightarrow> (string \<times> string) option" where
  "searchFunctionName [] = None"
| "searchFunctionName (c # r) =
     (case matchFunctionName (c # r) of
        Some m \<Rightarrow> Some m
      | None \<Rightarrow> searchFunctionName r)"

text \<open>\<open>/\s+If\b/.test(s)\<close>: some white space character is followed by \<open>If\<close> and no
  identifier character.\<close>

fun reSpaceIf :: "string \<Rightarrow> bool" where
  "reSpaceIf [] = False"
| "reSpaceIf (c # r) = ((isSpaceCh c \<and> take 2 r = ''If'' \<and> wordEnd (drop 2 r)) \<or> reSpaceIf r)"

text \<open>\<open>/\s+If\b/.test(lineText.slice(i + 5, i + 20))\<close>\<close>

definition elseIfFollows :: "string \<Rightarrow> nat \<Rightarrow> bool" where
  "elseIfFollows lineText i = reSpaceIf (take 15 (drop (i + 5) lineText))"

text \<open>The sticky pattern \<open>mapName = /@Map\.(Get|Set|Clear)@?/y\<close> at \<open>i\<close>: its
  \<open>lastIndex\<close> after a match.\<close>

definition mapNameAt :: "string \<Rightarrow> nat \<Rightarrow> nat option" where
  "mapNameAt lineText i =
     (if startsWithAt ''@Map.'' lineText i then
        (let e = (if startsWithAt ''Get'' lineText (i + 5) then Some (i + 8)
                  else if startsWithAt ''Set'' lineText (i + 5) then Some (i + 8)
                  else if startsWithAt ''Clear'' lineText (i + 5) then Some (i + 10)
                  else None)
         in case e of
              None \<Rightarrow> None
            | Some k \<Rightarrow> Some (if charAt lineText k = Some (CHR ''@'') then k + 1 else k))
      else None)"

text \<open>
  The extent of a \<open>^Data\<close> / \<open>^Class\<close> path in the second \<open>^\<close> block of the loop body:
  the outer \<open>while\<close> over \<open>.name\<close>, \<open>[...]\<close> and \<open>!\<close>, from \<open>j\<close> on.
\<close>

lemma skipWhileFrom_ge: "j \<le> skipWhileFrom P line j"
  by (simp add: skipWhileFrom_def)

function metaExtent :: "string \<Rightarrow> nat \<Rightarrow> nat" where
  "metaExtent lineText j =
     (if j < length lineText then
        (if lineText ! j = CHR ''.'' then
           metaExtent lineText (skipWhileFrom isIdentCh lineText (j + 1))
         else if lineText ! j = CHR ''['' then
           (let k = skipWhileFrom (\<lambda>c. c \<noteq> CHR '']'') lineText (j + 1)
            in metaExtent lineText (if charAt lineText k = Some (CHR '']'') then k + 1 else k))
         else if lineText ! j = CHR ''!'' then metaExtent lineText (j + 1)
         else j)
      else j)"
  by pat_completeness auto
termination
proof (relation "measure (\<lambda>(lineText, j). length lineText - j)", simp)
  fix lineText :: string and j :: nat
  assume "j < length lineText"
  with skipWhileFrom_ge [of "j + 1" isIdentCh lineText]
  show "((lineText, skipWhileFrom isIdentCh lineText (j + 1)), lineText, j)
          \<in> measure (\<lambda>(lineText, j). length lineText - j)" by simp
next
  fix lineText :: string and j :: nat and k :: nat
  assume "j < length lineText" and k: "k = skipWhileFrom (\<lambda>c. c \<noteq> CHR '']'') lineText (j + 1)"
  with skipWhileFrom_ge [of "j + 1" "\<lambda>c. c \<noteq> CHR '']''" lineText]
  show "((lineText, if charAt lineText k = Some CHR '']'' then k + 1 else k), lineText, j)
          \<in> measure (\<lambda>(lineText, j). length lineText - j)"
    by (auto simp: charAt_def split: if_splits)
next
  fix lineText :: string and j :: nat
  assume "j < length lineText"
  then show "((lineText, j + 1), lineText, j) \<in> measure (\<lambda>(lineText, j). length lineText - j)"
    by simp
qed

declare metaExtent.simps [simp del]

text \<open>
  The state of the scan of one line: the tokens pushed so far (of the whole line), the
  stack of call frames (\<open>callStack\<close>), \<open>ifMode\<close> and \<open>ifParenDepth\<close>. \<open>inSingleQuote\<close> is set to
  \<open>false\<close> before the loop and never assigned in it.
\<close>

record scanState =
  tokens :: "token list"
  callStack :: "Frame list"
  ifMode :: bool
  ifParenDepth :: int

definition inSingleQuote :: bool where
  "inSingleQuote = False"

definition push :: "token \<Rightarrow> scanState \<Rightarrow> scanState" where
  "push t st = st\<lparr>tokens := tokens st @ [t]\<rparr>"

text \<open>The first block of the loop body: \<open>@Function\<close> (with the name after it) and
  \<open>@End Function\<close>.\<close>

definition functionTokens :: "nat \<Rightarrow> string \<Rightarrow> nat \<Rightarrow> token list" where
  "functionTokens line lineText i =
     (if startsWithAt ''@Function'' lineText i \<and> isWordBoundary lineText i 9 then
        mkToken line i 9 ablFunctionDecl
        # (case searchFunctionName (drop i lineText) of
             None \<Rightarrow> []
           | Some (fn, fullMatched) \<Rightarrow>
               [mkToken line (i + (case indexOf fn fullMatched of Some k \<Rightarrow> k | None \<Rightarrow> 0))
                  (length fn) ablReturn])
      else [])
     @ (if startsWithAt ''@End Function'' lineText i \<and> isWordBoundary lineText i 13
        then [mkToken line i 13 ablFunctionEnd] else [])"

text \<open>The operator block: \<open>+\<close> and \<open>=\<close>.\<close>

definition operatorTokens :: "nat \<Rightarrow> string \<Rightarrow> nat \<Rightarrow> token list" where
  "operatorTokens line lineText i =
     (let ch = lineText ! i in
      if ch = CHR ''+'' \<or> ch = CHR ''='' then
        (let prev = prevChar lineText i; nxt = charAt lineText (i + 1) in
         if (ch = CHR ''='' \<and> (prev = Some (CHR ''>'') \<or> prev = Some (CHR ''<'')
                                  \<or> prev = Some (CHR ''!'') \<or> prev = Some (CHR ''='')))
            \<or> (ch = CHR ''='' \<and> nxt = Some (CHR ''=''))
         then []
         else [mkToken line i 1 ablLogic])
      else [])"

text \<open>The jump of the \<open>@If\<close> / \<open>@Else If\<close> block: the index of the opening parenthesis
  of the condition, if one follows.\<close>

definition ifParenIndex :: "string \<Rightarrow> nat \<Rightarrow> bool \<Rightarrow> nat option" where
  "ifParenIndex lineText i isIf =
     (let j = (if isIf then i + 3 else i + 5);
          j1 = skipSpacesFrom lineText j;
          j2 = skipIfWord lineText isIf j1;
          j3 = skipSpacesFrom lineText j2;
          j4 = skipAt lineText j3;
          j5 = skipSpacesFrom lineText j4
      in if charAt lineText j5 = Some (CHR ''('') then Some j5 else None)"

text \<open>The depth tracking at the end of the loop body.\<close>

definition trackDepth :: "char \<Rightarrow> scanState \<Rightarrow> scanState" where
  "trackDepth ch st =
     (let st1 =
        (if 0 < ifParenDepth st then
           (if ch = CHR ''('' then st\<lparr>ifParenDepth := ifParenDepth st + 1\<rparr>
            else if ch = CHR '')'' then
              (if ifParenDepth st - 1 = 0
               then st\<lparr>ifParenDepth := ifParenDepth st - 1, ifMode := False\<rparr>
               else st\<lparr>ifParenDepth := ifParenDepth st - 1\<rparr>)
            else st)
         else st)
      in if callStack st1 \<noteq> [] then
           (let t = last (callStack st1) in
            if ch = CHR ''('' then st1\<lparr>callStack := butlast (callStack st1) @ [t\<lparr>frameDepth := frameDepth t + 1\<rparr>]\<rparr>
            else if ch = CHR '')'' then
              (if frameDepth t - 1 = 0 then st1\<lparr>callStack := butlast (callStack st1)\<rparr>
               else st1\<lparr>callStack := butlast (callStack st1) @ [t\<lparr>frameDepth := frameDepth t - 1\<rparr>]\<rparr>)
            else st1)
         else st1)"

text \<open>The inner \<open>@\<close> of a call on the stack.\<close>

definition innerAtTokens :: "nat \<Rightarrow> string \<Rightarrow> nat \<Rightarrow> scanState \<Rightarrow> token list" where
  "innerAtTokens line lineText i st =
     (if callStack st \<noteq> [] \<and> lineText ! i = CHR ''@'' then
        (let t = last (callStack st);
             prev = prevChar lineText i;
             nxt = charAt lineText (i + 1);
             beforePunct = isAttachPunct nxt;
             afterPunct = isAttachPunct prev;
             afterIdent = isIdentChar prev
         in if beforePunct \<or> afterPunct \<or> afterIdent
            then [mkToken line i 1 (ctxToken (frameKind t))] else [])
      else [])"

text \<open>The call block \<open>@Something(\<close>: the token, the frame and the index of the
  parenthesis, when the block pushes and jumps.\<close>

definition callAt :: "nat \<Rightarrow> string \<Rightarrow> nat \<Rightarrow> (token \<times> Frame \<times> nat) option" where
  "callAt line lineText i =
     (if lineText ! i = CHR ''@'' then
        (case identAt (drop (i + 1) lineText) of
           None \<Rightarrow> None
         | Some (name, rest) \<Rightarrow>
             (let afterName = charAt lineText (i + 1 + length name) in
              if name = ''Map'' \<and> afterName = Some (CHR ''.'') then None
              else if name \<in> set AT_CONTROL_WORDS then None
              else if name \<in> set WRITER_KEYWORDS then None
              else
                (case getCallParenIndex lineText i (length name) of
                   None \<Rightarrow> None
                 | Some parenIdx \<Rightarrow>
                     (let tokenLen = (if charAt lineText (i + (1 + length name)) = Some (CHR ''@'')
                                      then 1 + length name + 1 else 1 + length name);
                          k = (if name \<in> set BUILTIN_FUNCTIONS then CtxFunc else CtxFunctionCall)
                      in Some (mkToken line i tokenLen (ctxToken k), \<lparr>frameKind = k, frameDepth = 1\<rparr>, parenIdx)))))
      else None)"

text \<open>The map block: the token and the index of the parenthesis, when the block pushes
  and jumps.\<close>

definition mapCallAt :: "nat \<Rightarrow> string \<Rightarrow> nat \<Rightarrow> (token \<times> nat) option" where
  "mapCallAt line lineText i =
     (case mapNameAt lineText i of
        None \<Rightarrow> None
      | Some lastIndex \<Rightarrow>
          (let j = skipSpacesFrom lineText lastIndex;
               j1 = skipAt lineText j
           in if charAt lineText j1 = Some (CHR ''('')
              then Some (mkToken line i (lastIndex - i) ablMap, j1) else None))"

text \<open>The logic block, run when \<open>ifMode || ifParenDepth > 0\<close>: the token and the index at
  which the body ends, when the block pushes.\<close>

definition logicAt :: "nat \<Rightarrow> string \<Rightarrow> nat \<Rightarrow> (token \<times> nat) option" where
  "logicAt line lineText i =
     (if startsWithAt ''And'' lineText i \<and> isWordBoundary lineText i 3
      then Some (mkToken line i 3 ablLogic, i + 2)
      else if startsWithAt ''Or'' lineText i \<and> isWordBoundary lineText i 2
      then Some (mkToken line i 2 ablLogic, i + 1)
      else if startsWithAt ''>='' lineText i \<or> startsWithAt ''<='' lineText i
              \<or> startsWithAt ''<>'' lineText i
      then Some (mkToken line i 2 ablLogic, i + 1)
      else if lineText ! i = CHR ''='' \<or> lineText ! i = CHR ''>'' \<or> lineText ! i = CHR ''<''
      then Some (mkToken line i 1 ablLogic, i)
      else None)"

text \<open>
  The body of the character loop of \<open>provideTokens\<close> at the index \<open>i\<close>, block by block
  from the last one: each gives the new state and the value of \<open>i\<close> at the end of the body
  (at a \<open>continue\<close>, or at its last statement).

  The map block, the call block, the inner \<open>@\<close> and the depth tracking:
\<close>

definition callBlocks :: "nat \<Rightarrow> string \<Rightarrow> nat \<Rightarrow> scanState \<Rightarrow> scanState \<times> nat" where
  "callBlocks line lineText i st2 =
     (case mapCallAt line lineText i of
        Some (t, j) \<Rightarrow>
          ((push t st2)\<lparr>callStack := callStack st2 @ [\<lparr>frameKind = CtxMap, frameDepth = 1\<rparr>]\<rparr>, j)
      | None \<Rightarrow>
          (case callAt line lineText i of
             Some (t, fr, j) \<Rightarrow> ((push t st2)\<lparr>callStack := callStack st2 @ [fr]\<rparr>, j)
           | None \<Rightarrow>
               (let st3 = st2\<lparr>tokens := tokens st2 @ innerAtTokens line lineText i st2\<rparr>
                in (trackDepth (lineText ! i) st3, i))))"

text \<open>The logic block of a condition, before them:\<close>

definition logicBlock :: "nat \<Rightarrow> string \<Rightarrow> nat \<Rightarrow> scanState \<Rightarrow> scanState \<times> nat" where
  "logicBlock line lineText i st2 =
     (case (if ifMode st2 \<or> 0 < ifParenDepth st2 then logicAt line lineText i else None) of
        Some (t, j) \<Rightarrow> (push t st2, j)
      | None \<Rightarrow> callBlocks line lineText i st2)"

text \<open>The blocks that enter and leave the If mode, before it:\<close>

definition ifModeBlocks :: "nat \<Rightarrow> string \<Rightarrow> nat \<Rightarrow> scanState \<Rightarrow> scanState \<times> nat" where
  "ifModeBlocks line lineText i st2 =
     (let isIf = (startsWithAt ''@If'' lineText i \<and> isWordBoundary lineText i 3);
          isElseIf = (startsWithAt ''@Else'' lineText i \<and> isWordBoundary lineText i 5
                      \<and> elseIfFollows lineText i)
      in
      if isIf \<or> isElseIf then
        (case ifParenIndex lineText i isIf of
           Some j \<Rightarrow> (st2\<lparr>ifMode := True, ifParenDepth := 1\<rparr>, j)
         | None \<Rightarrow> (st2\<lparr>ifMode := True, ifParenDepth := 0\<rparr>, i))
      else if ifMode st2
              \<and> (startsWithAt ''@Then'' lineText i \<or> startsWithAt ''@Else'' lineText i)
              \<and> isWordBoundary lineText i 5
              \<and> \<not> (startsWithAt ''@Else'' lineText i \<and> elseIfFollows lineText i)
      then (st2\<lparr>ifMode := False, ifParenDepth := 0\<rparr>, i)
      else logicBlock line lineText i st2)"

text \<open>The whole body: the function tokens, the first \<open>^\<close> block, the quote check, the
  operator block and the second \<open>^\<close> block come first.\<close>

definition scanStep :: "nat \<Rightarrow> string \<Rightarrow> nat \<Rightarrow> scanState \<Rightarrow> scanState \<times> nat" where
  "scanStep line lineText i st0 =
     (let ch = lineText ! i;
          st1 = st0\<lparr>tokens := tokens st0 @ functionTokens line lineText i\<rparr>
      in
      if ch = CHR ''^'' \<and> startsWithAt ''^Data'' lineText i then (push (mkToken line i 5 ablData) st1, i)
      else if ch = CHR ''^'' \<and> startsWithAt ''^Class'' lineText i then (push (mkToken line i 6 ablData) st1, i)
      else if inSingleQuote then (st1, i)
      else
        (let st2 = st1\<lparr>tokens := tokens st1 @ operatorTokens line lineText i\<rparr> in
         if ch = CHR ''^'' \<and> (startsWithAt ''^Data'' lineText i \<or> startsWithAt ''^Class'' lineText i) then
           (let j = metaExtent lineText (skipWhileFrom isIdentCh lineText (i + 1))
            in (push (mkToken line i (j - i) ablFunc) st2, j - 1))
         else ifModeBlocks line lineText i st2))"

text \<open>No block moves the index backwards.\<close>

lemma skipSpacesFrom_ge: "j \<le> skipSpacesFrom line j"
  by (simp add: skipSpacesFrom_def skipWhileFrom_def)

lemma skipAt_ge: "j \<le> skipAt line j"
  by (simp add: skipAt_def)

lemma skipIfWord_ge: "j \<le> skipIfWord line isIf j"
  by (simp add: skipIfWord_def)

lemma ifParenIndex_ge: "ifParenIndex lineText i isIf = Some j \<Longrightarrow> i \<le> j"
proof -
  assume a: "ifParenIndex lineText i isIf = Some j"
  let ?j = "if isIf then i + 3 else i + 5"
  let ?j1 = "skipSpacesFrom lineText ?j"
  let ?j2 = "skipIfWord lineText isIf ?j1"
  let ?j3 = "skipSpacesFrom lineText ?j2"
  let ?j4 = "skipAt lineText ?j3"
  let ?j5 = "skipSpacesFrom lineText ?j4"
  from a have j: "j = ?j5"
    unfolding ifParenIndex_def Let_def by (metis option.inject option.distinct(1))
  have "i \<le> ?j" by simp
  also have "?j \<le> ?j1" by (rule skipSpacesFrom_ge)
  also have "?j1 \<le> ?j2" by (rule skipIfWord_ge)
  also have "?j2 \<le> ?j3" by (rule skipSpacesFrom_ge)
  also have "?j3 \<le> ?j4" by (rule skipAt_ge)
  also have "?j4 \<le> ?j5" by (rule skipSpacesFrom_ge)
  finally show ?thesis using j by simp
qed

lemma logicAt_ge: "logicAt line lineText i = Some (t, j) \<Longrightarrow> i \<le> j"
  by (auto simp: logicAt_def split: if_splits)

lemma mapNameAt_ge: "mapNameAt lineText i = Some k \<Longrightarrow> i \<le> k"
  by (auto simp: mapNameAt_def Let_def split: if_splits option.splits)

lemma mapCallAt_ge: "mapCallAt line lineText i = Some (t, j) \<Longrightarrow> i \<le> j"
proof -
  assume a: "mapCallAt line lineText i = Some (t, j)"
  then obtain k where k: "mapNameAt lineText i = Some k"
    by (auto simp: mapCallAt_def split: option.splits)
  with a have "j = skipAt lineText (skipSpacesFrom lineText k)"
    by (auto simp: mapCallAt_def Let_def split: if_splits)
  with mapNameAt_ge[OF k] skipSpacesFrom_ge[of k lineText] skipAt_ge[of "skipSpacesFrom lineText k" lineText]
  show ?thesis by simp
qed

lemma getCallParenIndex_ge: "getCallParenIndex lineText i n = Some j \<Longrightarrow> i \<le> j"
proof -
  assume a: "getCallParenIndex lineText i n = Some j"
  then have "j = skipSpacesFrom lineText (skipAt lineText (i + 1 + n))"
    by (simp add: getCallParenIndex_def Let_def split: if_splits)
  with skipSpacesFrom_ge[of "skipAt lineText (i + 1 + n)" lineText] skipAt_ge[of "i + 1 + n" lineText]
  show ?thesis by simp
qed

lemma callAt_ge: "callAt line lineText i = Some (t, fr, j) \<Longrightarrow> i \<le> j"
proof -
  assume a: "callAt line lineText i = Some (t, fr, j)"
  then obtain n where "getCallParenIndex lineText i n = Some j"
    by (auto simp: callAt_def Let_def split: if_splits option.splits)
  then show ?thesis by (rule getCallParenIndex_ge)
qed

lemma callBlocks_index_ge: "i \<le> snd (callBlocks line lineText i st)"
  unfolding callBlocks_def Let_def
  by (auto split: option.splits dest: mapCallAt_ge callAt_ge)

lemma logicBlock_index_ge: "i \<le> snd (logicBlock line lineText i st)"
  unfolding logicBlock_def
  by (auto split: option.splits if_splits dest: logicAt_ge simp: callBlocks_index_ge)

lemma ifModeBlocks_index_ge: "i \<le> snd (ifModeBlocks line lineText i st)"
  unfolding ifModeBlocks_def Let_def
  by (auto split: option.splits dest: ifParenIndex_ge simp: logicBlock_index_ge)

lemma scanStep_index_ge: "i \<le> snd (scanStep line lineText i st)"
  unfolding scanStep_def Let_def
  by (auto simp: ifModeBlocks_index_ge)

lemma scanStep_result_index: "(st', i') = scanStep line lineText i st \<Longrightarrow> i \<le> i'"
  using scanStep_index_ge [of i line lineText st] by (metis snd_conv)

text \<open>The character loop \<open>for (let i = 0; i < lineText.length; i++)\<close>, from the index
  \<open>i\<close> on.\<close>

function scanLine :: "nat \<Rightarrow> string \<Rightarrow> nat \<Rightarrow> scanState \<Rightarrow> scanState" where
  "scanLine line lineText i st =
     (if i < length lineText then
        (case scanStep line lineText i st of
           (st', i') \<Rightarrow> scanLine line lineText (Suc i') st')
      else st)"
  by pat_completeness auto
termination
  by (relation "measure (\<lambda>(line, lineText, i, st). length lineText - i)")
     (auto dest!: scanStep_result_index)

declare scanLine.simps [simp del]

text \<open>
  The tokens of the return variable, pushed before the loop on a line of a function with
  a name: the \<open>@Set name\<close> and then the \<open>@Get(name)\<close> of the masked line whose name is
  the function's.
\<close>

definition returnTokensOf :: "usePattern \<Rightarrow> nat \<Rightarrow> string \<Rightarrow> string \<Rightarrow> token list" where
  "returnTokensOf p line currentFuncName scanText =
     map (\<lambda>m. mkToken line (useNameStart p m) (length currentFuncName) ablReturn)
       (filter (\<lambda>(idx, whole, name). name = currentFuncName) (execAll p 0 scanText))"

definition returnTokens :: "nat \<Rightarrow> string option \<Rightarrow> string \<Rightarrow> token list" where
  "returnTokens line currentFuncName scanText =
     (case currentFuncName of
        None \<Rightarrow> []
      | Some name \<Rightarrow>
          returnTokensOf SetUse line name scanText @ returnTokensOf GetUse line name scanText)"

text \<open>The tokens of one line, in the order of the calls of \<open>pushToken\<close>.\<close>

definition lineTokens :: "nat \<Rightarrow> string option \<Rightarrow> string \<Rightarrow> token list" where
  "lineTokens line currentFuncName lineText =
     tokens (scanLine line lineText 0
       \<lparr>tokens = returnTokens line currentFuncName (stripSingleQuoted2 lineText),
        callStack = [], ifMode = False, ifParenDepth = 0\<rparr>)"

text \<open>\<open>currentFuncName\<close> of a line: the name of its function, if the line is in one and
  that one has a name.\<close>

definition currentFuncNameOf :: "document \<Rightarrow> nat \<Rightarrow> string option" where
  "currentFuncNameOf doc line =
     (let funcId = buildFuncLineMap doc ! line in
      if 0 \<le> funcId then buildFuncNameMap doc funcId else None)"

text \<open>\<open>provideTokens\<close>: the tokens pushed to the builder, line after line.\<close>

definition provideTokens :: "document \<Rightarrow> token list" where
  "provideTokens doc =
     concat (map (\<lambda>line. lineTokens line (currentFuncNameOf doc line) (doc ! line)) [0..<length doc])"

text \<open>Two spans of one line overlap when each starts before the other ends.\<close>

definition spansOverlap :: "token \<Rightarrow> token \<Rightarrow> bool" where
  "spansOverlap a b =
     (tline a = tline b \<and> tstart a < tstart b + tlen b \<and> tstart b < tstart a + tlen a)"

section \<open>Operator positions of a line\<close>

text \<open>
  The positions at which the operator block pushes: a \<open>+\<close>, or a \<open>=\<close> that no \<open>>\<close>,
  \<open><\<close>, \<open>!\<close> or \<open>=\<close> precedes and no \<open>=\<close> follows.
\<close>

definition isOperatorPos :: "string \<Rightarrow> nat \<Rightarrow> bool" where
  "isOperatorPos lineText i =
     (i < length lineText
      \<and> (lineText ! i = CHR ''+''
         \<or> (lineText ! i = CHR ''=''
            \<and> prevChar lineText i \<noteq> Some (CHR ''>'') \<and> prevChar lineText i \<noteq> Some (CHR ''<'')
            \<and> prevChar lineText i \<noteq> Some (CHR ''!'') \<and> prevChar lineText i \<noteq> Some (CHR ''='')
            \<and> charAt lineText (i + 1) \<noteq> Some (CHR ''=''))))"

text \<open>No such position from \<open>a\<close> up to, not including, \<open>b\<close>.\<close>

definition noOperator :: "string \<Rightarrow> nat \<Rightarrow> nat \<Rightarrow> bool" where
  "noOperator lineText a b = (\<forall>q. a \<le> q \<and> q < b \<longrightarrow> \<not> isOperatorPos lineText q)"

text \<open>A character that is neither \<open>+\<close> nor \<open>=\<close>.\<close>

definition plainCh :: "char \<Rightarrow> bool" where
  "plainCh c = (c \<noteq> CHR ''+'' \<and> c \<noteq> CHR ''='')"

section \<open>Scopes and uses, as the specification describes them\<close>

text \<open>
  The declared-set of a scope: the global set for the top level (-1), the local set of the
  function otherwise. A line is scanned for uses when it is not blank, not a comment, not
  a \<open>@Function\<close> declaration with a name and not a \<open>@String\<close> / \<open>@Int\<close> declaration. The
  uses of a line are the names that the scan for \<open>@Set name\<close> and \<open>@Get(name)\<close> finds in
  its masked text. A diagnostic is about the name when its message is one of the two
  undeclared-variable messages with that name.
\<close>

definition declaredSet :: "varState \<Rightarrow> int \<Rightarrow> string set" where
  "declaredSet st scope = (if scope = - 1 then globalDeclared st else localDeclaredByFunc st scope)"

definition isUseLine :: "string \<Rightarrow> bool" where
  "isUseLine raw =
     (\<not> isBlankLine raw \<and> \<not> isCommentLine raw
      \<and> fnNameRe (stripSingleQuoted2 raw) = None \<and> declRe (stripSingleQuoted2 raw) = None)"

definition usedNames :: "string \<Rightarrow> string set" where
  "usedNames raw =
     (\<lambda>(idx, whole, name). name) `
       (set (execAll SetUse 0 (stripSingleQuoted2 raw)) \<union> set (execAll GetUse 0 (stripSingleQuoted2 raw)))"

text \<open>The name that a line declares with \<open>@String\<close> or \<open>@Int\<close>, when the validator
  takes the line as a declaration.\<close>

definition declaredAt :: "string \<Rightarrow> string option" where
  "declaredAt raw =
     (if isBlankLine raw \<or> isCommentLine raw \<or> fnNameRe (stripSingleQuoted2 raw) \<noteq> None then None
      else declRe (stripSingleQuoted2 raw))"

definition isUndeclaredDiag :: "string \<Rightarrow> diagnostic \<Rightarrow> bool" where
  "isUndeclaredDiag name d = (dmsg d = UndeclaredGlobal name \<or> dmsg d = UndeclaredInFunction name)"

text \<open>
  The scope of a line, from the text of the document alone. The \<open>@Function\<close> lines
  number the functions of a document from 0 in the order of their lines. A line belongs
  to the function of the last \<open>@Function\<close> line at or before it, unless an
  \<open>@End Function\<close> line lies strictly between the two (the \<open>@End Function\<close> line itself
  still belongs to the function); a line that belongs to no function is at top level,
  scope -1.
\<close>

definition functionLinesBefore :: "document \<Rightarrow> nat \<Rightarrow> nat list" where
  "functionLinesBefore doc n = filter (\<lambda>j. reFunction (doc ! j)) [0..<n]"

definition scopeOf :: "document \<Rightarrow> nat \<Rightarrow> int" where
  "scopeOf doc L =
     (case rev (functionLinesBefore doc (Suc L)) of
        [] \<Rightarrow> - 1
      | j # earlier \<Rightarrow>
          if list_ex (\<lambda>k. reEndFunction (doc ! k)) [Suc j..<L] then - 1
          else int (length earlier))"

text \<open>A function is open after the first \<open>n\<close> lines: no \<open>@End Function\<close> line follows
  the last \<open>@Function\<close> line among them.\<close>

definition openFunctionBefore :: "document \<Rightarrow> nat \<Rightarrow> bool" where
  "openFunctionBefore doc n =
     (case rev (functionLinesBefore doc n) of
        [] \<Rightarrow> False
      | j # earlier \<Rightarrow> \<not> list_ex (\<lambda>k. reEndFunction (doc ! k)) [Suc j..<n])"

text \<open>
  The declarations visible at a line, from the text of the document alone. A line declares
  a name with \<open>@String\<close> / \<open>@Int\<close> (\<open>declaredAt\<close>) or, as a \<open>@Function\<close> line, declares the
  name of its function. A declaration at top level is visible from every scope; a
  declaration in a function, and the name of the function, are visible from the lines of
  that function. A declaration is visible before line \<open>L\<close> when a line above \<open>L\<close> makes
  it, visibly from the scope of \<open>L\<close>.
\<close>

definition functionNameAt :: "string \<Rightarrow> string option" where
  "functionNameAt raw =
     (if isBlankLine raw \<or> isCommentLine raw then None else fnNameRe (stripSingleQuoted2 raw))"

definition declaresFor :: "document \<Rightarrow> nat \<Rightarrow> int \<Rightarrow> string \<Rightarrow> bool" where
  "declaresFor doc j scope n =
     (let sj = scopeOf doc j in
      (declaredAt (doc ! j) = Some n \<and> (sj = - 1 \<or> sj = scope))
      \<or> (functionNameAt (doc ! j) = Some n \<and> sj \<noteq> - 1 \<and> sj = scope))"

definition visibleDeclBefore :: "document \<Rightarrow> nat \<Rightarrow> string \<Rightarrow> bool" where
  "visibleDeclBefore doc L n =
     (\<exists>j\<in>set [0..<L]. declaresFor doc j (scopeOf doc L) n)"

text \<open>A document with one function, used to run the validator.\<close>

definition exampleFunctionDoc :: document where
  "exampleFunctionDoc =
     [''@Function F(a)'', ''  @Set F = @Get(x)'', ''  @String x'', ''  @Set x = @Get(x)'',
      ''@End Function'']"

text \<open>A document at top level that sets a name on the line before its declaration.\<close>

definition lateDeclarationDoc :: document where
  "lateDeclarationDoc = [''@Set g = 1'', ''@String g'']"

text \<open>A document at top level whose first line is a declaration that also uses a name
  declared only on the second line.\<close>

definition declarationLineUseDoc :: document where
  "declarationLineUseDoc = ['' @Int y @Set y = @Get(x)'', '' @Int x'']"

section \<open>Bracket matching, as the specification describes it\<close>

text \<open>
  The specification's block matcher runs over the stream of the non-comment lines, each
  with its line number, with one stack per block kind: a start line is pushed; an end line
  pops, or is reported when the stack is empty; a line that is neither (an \<open>@Else If\<close>
  line among them) changes nothing. The state is the list of the reported end lines and the
  stack. At the end of the stream every line left on the stack is reported.
\<close>

definition lineStream :: "document \<Rightarrow> (nat \<times> string) list" where
  "lineStream doc = filter (\<lambda>(line, text). \<not> isCommentLine text) (enumerate 0 doc)"

fun isBlockStart :: "blockKind \<Rightarrow> string \<Rightarrow> bool" where
  "isBlockStart IfBlock text = reIf text"
| "isBlockStart ForBlock text = reFor text"
| "isBlockStart FunctionBlock text = reFunction text"

fun isBlockEnd :: "blockKind \<Rightarrow> string \<Rightarrow> bool" where
  "isBlockEnd IfBlock text = reEndIf text"
| "isBlockEnd ForBlock text = reEndFor text"
| "isBlockEnd FunctionBlock text = reEndFunction text"

datatype marker = BlockStart | BlockEnd | NoMarker

definition markerOf :: "blockKind \<Rightarrow> string \<Rightarrow> marker" where
  "markerOf k text =
     (if isBlockStart k text then BlockStart
      else if isBlockEnd k text then BlockEnd
      else NoMarker)"

fun bracketStep :: "blockKind \<Rightarrow> nat \<times> string \<Rightarrow> nat list \<times> nat list \<Rightarrow> nat list \<times> nat list" where
  "bracketStep k (line, text) (unmatched, stack) =
     (case markerOf k text of
        BlockStart \<Rightarrow> (unmatched, stack @ [line])
      | BlockEnd \<Rightarrow> (if stack = [] then (unmatched @ [line], stack) else (unmatched, butlast stack))
      | NoMarker \<Rightarrow> (unmatched, stack))"

definition bracketMatch :: "blockKind \<Rightarrow> document \<Rightarrow> nat list \<times> nat list" where
  "bracketMatch k doc = fold (bracketStep k) (lineStream doc) ([], [])"

definition bracketDiagnostics :: "blockKind \<Rightarrow> document \<Rightarrow> diagnostic list" where
  "bracketDiagnostics k doc =
     (case bracketMatch k doc of
        (unmatched, stack) \<Rightarrow>
          map (\<lambda>line. lineDiag doc line (UnmatchedEnd k)) unmatched
          @ map (\<lambda>line. lineDiag doc line (MissingEnd k)) stack)"

text \<open>
  The structural imbalance of a sequence of markers, counted with the number of open
  blocks: an end with no open block counts one, and so does every block still open at the
  end of the sequence.
\<close>

fun imbalance :: "nat \<Rightarrow> marker list \<Rightarrow> nat" where
  "imbalance opened [] = opened"
| "imbalance opened (BlockStart # ms) = imbalance (Suc opened) ms"
| "imbalance opened (BlockEnd # ms) =
     (if opened = 0 then Suc (imbalance 0 ms) else imbalance (opened - 1) ms)"
| "imbalance opened (NoMarker # ms) = imbalance opened ms"

text \<open>The diagnostics of the block matching of one kind.\<close>

definition isBlockDiag :: "blockKind \<Rightarrow> diagnostic \<Rightarrow> bool" where
  "isBlockDiag k d = (dmsg d = UnmatchedEnd k \<or> dmsg d = MissingEnd k)"

text \<open>The matcher's step at the line \<open>line\<close> of the document: comment lines are not in
  the stream.\<close>

definition streamStep :: "blockKind \<Rightarrow> document \<Rightarrow> nat \<Rightarrow> nat list \<times> nat list \<Rightarrow> nat list \<times> nat list" where
  "streamStep k doc line us = (if isCommentLine (doc ! line) then us else bracketStep k (line, doc ! line) us)"

section \<open>The @Then rule, as the specification describes it\<close>

text \<open>
  \<open>@Then\<close> is supplied by the next line when the first line that is neither blank nor a
  comment, among the two lines after the \<open>@If\<close> / \<open>@Else If\<close> line, starts with \<open>@Then\<close>.
\<close>

definition nextLineSuppliesThen :: "document \<Rightarrow> nat \<Rightarrow> bool" where
  "nextLineSuppliesThen doc line =
     (case find (\<lambda>t. \<not> isBlankLine t \<and> \<not> isCommentLine t) (take 2 (drop (Suc line) doc)) of
        None \<Rightarrow> False
      | Some t \<Rightarrow> reThenStart t)"

definition thenReachable :: "document \<Rightarrow> nat \<Rightarrow> bool" where
  "thenReachable doc line = (reThenAnywhere (doc ! line) \<or> nextLineSuppliesThen doc line)"

section \<open>Top-level positions, as the specification describes them\<close>

text \<open>
  The specification's quote rule: a quote toggles the quote state, a doubled quote is one
  unit of two characters and toggles nothing. Its parenthesis rule: outside quotes an opening
  parenthesis goes one level down and a closing one comes back up (never above the top
  level). \<open>scanLabels\<close> labels each position of a text: \<open>True\<close> where the position is
  outside quotes and outside parentheses, and is itself no quote and no parenthesis.
\<close>

fun scanLabels :: "nat \<Rightarrow> bool \<Rightarrow> string \<Rightarrow> bool list" where
  "scanLabels depth inQ [] = []"
| "scanLabels depth inQ (c # r) =
     (if c = quoteChar then
        (case r of
           nxt # r' \<Rightarrow>
             if nxt = quoteChar then False # False # scanLabels depth inQ r'
             else False # scanLabels depth (\<not> inQ) r
         | [] \<Rightarrow> [False])
      else if inQ then False # scanLabels depth inQ r
      else if c = CHR ''('' then False # scanLabels (depth + 1) inQ r
      else if c = CHR '')'' then False # scanLabels (depth - 1) inQ r
      else (depth = 0) # scanLabels depth inQ r)"

text \<open>Position \<open>i\<close> of \<open>expr\<close> is at top level.\<close>

definition topLevelAt :: "string \<Rightarrow> nat \<Rightarrow> bool" where
  "topLevelAt expr i = (i < length expr \<and> scanLabels 0 False expr ! i)"

text \<open>
  The specification's operators. An operator occurs at position \<open>i\<close> of a text when the
  text reads it from \<open>i\<close> on; a comparison operator is at \<open>i\<close> when one of \<open><>\<close>, \<open>>=\<close>,
  \<open><=\<close>, \<open>=\<close>, \<open>>\<close>, \<open><\<close> occurs there. The operator by priority at \<open>i\<close> is the first of
  them, in this order, that occurs there, so that the two-character operators win over
  their one-character heads.
\<close>

definition occursAt :: "string \<Rightarrow> string \<Rightarrow> nat \<Rightarrow> bool" where
  "occursAt op expr i = (take (length op) (drop i expr) = op)"

definition operatorAt :: "string \<Rightarrow> nat \<Rightarrow> bool" where
  "operatorAt expr i =
     (occursAt ''<>'' expr i \<or> occursAt ''>='' expr i \<or> occursAt ''<='' expr i
      \<or> occursAt ''='' expr i \<or> occursAt ''>'' expr i \<or> occursAt ''<'' expr i)"

definition priorityOperator :: "string \<Rightarrow> nat \<Rightarrow> string option" where
  "priorityOperator expr i =
     (if occursAt ''<>'' expr i then Some ''<>''
      else if occursAt ''>='' expr i then Some ''>=''
      else if occursAt ''<='' expr i then Some ''<=''
      else if occursAt ''='' expr i then Some ''=''
      else if occursAt ''>'' expr i then Some ''>''
      else if occursAt ''<'' expr i then Some ''<''
      else None)"

text \<open>The search of the loop over labelled positions, from index \<open>i\<close> on: the first
  labelled position where the inner loop finds an operator. It serves to follow the loop
  of the code along the labels.\<close>

fun firstOp :: "nat \<Rightarrow> bool list \<Rightarrow> string \<Rightarrow> (nat \<times> string) option" where
  "firstOp i (b # bs) (c # r) =
     (if b then (case opAtHead (c # r) of Some op \<Rightarrow> Some (i, op) | None \<Rightarrow> firstOp (i + 1) bs r)
      else firstOp (i + 1) bs r)"
| "firstOp i _ _ = None"

section \<open>Quote masking is stable\<close>

lemma stripSingleQuoted_loop_no_quote:
  "quoteChar \<notin> set (stripSingleQuoted_loop inQ s)"
  by (induction inQ s rule: stripSingleQuoted_loop.induct) (auto split: list.splits)

lemma stripSingleQuoted_loop_id:
  "quoteChar \<notin> set s \<Longrightarrow> stripSingleQuoted_loop False s = s"
  by (induction s) auto

lemma stripSingleQuoted2_loop_no_quote:
  "quoteChar \<notin> set (stripSingleQuoted2_loop inQ s)"
  by (induction inQ s rule: stripSingleQuoted2_loop.induct)
     (auto split: list.splits simp: quoteChar_def)

lemma stripSingleQuoted2_loop_id:
  "quoteChar \<notin> set s \<Longrightarrow> stripSingleQuoted2_loop False s = s"
  by (induction s) auto

lemma stripSingleQuoted2_length:
  "length (stripSingleQuoted2_loop inQ s) = length s"
  by (induction inQ s rule: stripSingleQuoted2_loop.induct) (auto split: list.splits)

text \<open>
  Claim C9. Both quote functions are idempotent: masking the single-quoted spans of a
  masked line (\<open>stripSingleQuoted2\<close>), or removing the single-quoted spans of a stripped
  text (\<open>stripSingleQuoted\<close>), changes nothing, for every input string.
\<close>

theorem stripSingleQuoted_idempotent:
  "stripSingleQuoted2 (stripSingleQuoted2 s) = stripSingleQuoted2 s
   \<and> stripSingleQuoted (stripSingleQuoted s) = stripSingleQuoted s"
  unfolding stripSingleQuoted2_def stripSingleQuoted_def
  using stripSingleQuoted2_loop_id [OF stripSingleQuoted2_loop_no_quote]
        stripSingleQuoted_loop_id [OF stripSingleQuoted_loop_no_quote]
  by simp

section \<open>The block validators are bracket matchers\<close>

text \<open>Two keywords that differ at some position, cases apart, never start the same text.\<close>

lemma startsWithCI_nth:
  assumes "startsWithCI p s" "i < length p"
  shows "i < length s \<and> lowerCh (s ! i) = lowerCh (p ! i)"
proof -
  from assms(1) have eq: "map lowerCh (take (length p) s) = map lowerCh p"
    by (simp add: startsWithCI_def)
  then have "length (take (length p) s) = length p"
    by (metis length_map)
  then have len: "length p \<le> length s" by simp
  with assms(2) have i: "i < length s" by simp
  from eq have "map lowerCh (take (length p) s) ! i = map lowerCh p ! i" by simp
  with assms(2) len show ?thesis using i by simp
qed

lemma startsWithCI_clash:
  assumes "startsWithCI p s" "startsWithCI q s" "i < length p" "i < length q"
  shows "lowerCh (p ! i) = lowerCh (q ! i)"
  using startsWithCI_nth[OF assms(1,3)] startsWithCI_nth[OF assms(2,4)] by simp

lemma lowerCh_distinct:
  "lowerCh (CHR ''I'') \<noteq> lowerCh (CHR ''F'')"
  "lowerCh (CHR ''I'') \<noteq> lowerCh (CHR ''E'')"
  "lowerCh (CHR ''E'') \<noteq> lowerCh (CHR ''F'')"
  "lowerCh (CHR ''l'') \<noteq> lowerCh (CHR ''n'')"
  by (simp_all add: lowerCh_def)

lemma startsWithCI_If_Function: "startsWithCI ''@If'' s \<Longrightarrow> \<not> startsWithCI ''@Function'' s"
  using startsWithCI_clash[of "''@If''" s "''@Function''" 1] lowerCh_distinct by auto

lemma startsWithCI_If_End: "startsWithCI ''@If'' s \<Longrightarrow> \<not> startsWithCI ''@End'' s"
  using startsWithCI_clash[of "''@If''" s "''@End''" 1] lowerCh_distinct by auto

lemma startsWithCI_Else_Function: "startsWithCI ''@Else'' s \<Longrightarrow> \<not> startsWithCI ''@Function'' s"
  using startsWithCI_clash[of "''@Else''" s "''@Function''" 1] lowerCh_distinct by auto

lemma startsWithCI_Else_End: "startsWithCI ''@Else'' s \<Longrightarrow> \<not> startsWithCI ''@End'' s"
  using startsWithCI_clash[of "''@Else''" s "''@End''" 2] lowerCh_distinct by auto

lemma reIf_not_others:
  assumes "reIf t"
  shows "\<not> reFunction t" "\<not> reEndFunction t" "\<not> reEndIf t"
  using assms startsWithCI_If_Function[of "dropWhile isSpaceCh t"]
    startsWithCI_If_End[of "dropWhile isSpaceCh t"]
  unfolding reIf_def reFunction_def reEndFunction_def reEndIf_def kwAt_def kw2At_def
  by blast+

lemma reElseIf_not_others:
  assumes "reElseIf t"
  shows "\<not> reFunction t" "\<not> reEndFunction t" "\<not> reEndIf t"
  using assms startsWithCI_Else_Function[of "dropWhile isSpaceCh t"]
    startsWithCI_Else_End[of "dropWhile isSpaceCh t"]
  unfolding reElseIf_def reFunction_def reEndFunction_def reEndIf_def kwAt_def kw2At_def
  by blast+

lemma enumerate_nth_map: "enumerate 0 xs = map (\<lambda>i. (i, xs ! i)) [0..<length xs]"
  by (rule nth_equalityI) (simp_all add: nth_enumerate_eq)

lemma bracketMatch_fold:
  "bracketMatch k doc = fold (streamStep k doc) [0..<length doc] ([], [])"
proof -
  have "fold (bracketStep k) (filter (\<lambda>(line, text). \<not> isCommentLine text) (map (\<lambda>i. (i, doc ! i)) ls)) us
        = fold (streamStep k doc) ls us" for ls us
    by (induction ls arbitrary: us) (simp_all add: streamStep_def)
  then show ?thesis by (simp add: bracketMatch_def lineStream_def enumerate_nth_map)
qed

abbreviation unmatchedOf :: "blockKind \<Rightarrow> document \<Rightarrow> nat list \<Rightarrow> diagnostic list" where
  "unmatchedOf k doc ls \<equiv> map (\<lambda>line. lineDiag doc line (UnmatchedEnd k)) ls"

lemma ifLineStep_If:
  assumes "filter (isBlockDiag IfBlock) (diagnostics st) = unmatchedOf IfBlock doc U"
    and "ifStack st = S"
    and "streamStep IfBlock doc l (U, S) = (U', S')"
  shows "filter (isBlockDiag IfBlock) (diagnostics (ifLineStep doc l st)) = unmatchedOf IfBlock doc U'
         \<and> ifStack (ifLineStep doc l st) = S'"
  using assms reElseIf_not_others(3)[of "doc ! l"]
  by (auto simp: ifLineStep_def streamStep_def markerOf_def isBlockDiag_def lineDiag_def
        Let_def split: if_splits)

lemma ifLineStep_Function:
  assumes "filter (isBlockDiag FunctionBlock) (diagnostics st) = unmatchedOf FunctionBlock doc U"
    and "funcStack st = S"
    and "streamStep FunctionBlock doc l (U, S) = (U', S')"
  shows "filter (isBlockDiag FunctionBlock) (diagnostics (ifLineStep doc l st)) = unmatchedOf FunctionBlock doc U'
         \<and> funcStack (ifLineStep doc l st) = S'"
  using assms reElseIf_not_others(1,2)[of "doc ! l"] reIf_not_others(1,2)[of "doc ! l"]
  by (auto simp: ifLineStep_def streamStep_def markerOf_def isBlockDiag_def lineDiag_def
        Let_def split: if_splits)


lemma ifLineStep_For:
  "filter (isBlockDiag ForBlock) (diagnostics (ifLineStep doc l st))
   = filter (isBlockDiag ForBlock) (diagnostics st)"
  by (simp add: ifLineStep_def isBlockDiag_def lineDiag_def Let_def)

lemma if_fold_If:
  assumes "filter (isBlockDiag IfBlock) (diagnostics st) = unmatchedOf IfBlock doc (fst us)"
    and "ifStack st = snd us"
  shows "filter (isBlockDiag IfBlock) (diagnostics (fold (ifLineStep doc) ls st))
           = unmatchedOf IfBlock doc (fst (fold (streamStep IfBlock doc) ls us))
         \<and> ifStack (fold (ifLineStep doc) ls st) = snd (fold (streamStep IfBlock doc) ls us)"
  using assms
proof (induction ls arbitrary: st us)
  case Nil
  then show ?case by simp
next
  case (Cons l ls)
  obtain U' S' where step: "streamStep IfBlock doc l (fst us, snd us) = (U', S')"
    by (cases "streamStep IfBlock doc l (fst us, snd us)")
  from ifLineStep_If[OF Cons.prems(1,2) step]
  have "filter (isBlockDiag IfBlock) (diagnostics (ifLineStep doc l st))
          = unmatchedOf IfBlock doc (fst (streamStep IfBlock doc l us))"
       "ifStack (ifLineStep doc l st) = snd (streamStep IfBlock doc l us)"
    using step by simp_all
  from Cons.IH[OF this] show ?case by simp
qed

lemma if_fold_Function:
  assumes "filter (isBlockDiag FunctionBlock) (diagnostics st) = unmatchedOf FunctionBlock doc (fst us)"
    and "funcStack st = snd us"
  shows "filter (isBlockDiag FunctionBlock) (diagnostics (fold (ifLineStep doc) ls st))
           = unmatchedOf FunctionBlock doc (fst (fold (streamStep FunctionBlock doc) ls us))
         \<and> funcStack (fold (ifLineStep doc) ls st) = snd (fold (streamStep FunctionBlock doc) ls us)"
  using assms
proof (induction ls arbitrary: st us)
  case Nil
  then show ?case by simp
next
  case (Cons l ls)
  obtain U' S' where step: "streamStep FunctionBlock doc l (fst us, snd us) = (U', S')"
    by (cases "streamStep FunctionBlock doc l (fst us, snd us)")
  from ifLineStep_Function[OF Cons.prems(1,2) step]
  have "filter (isBlockDiag FunctionBlock) (diagnostics (ifLineStep doc l st))
          = unmatchedOf FunctionBlock doc (fst (streamStep FunctionBlock doc l us))"
       "funcStack (ifLineStep doc l st) = snd (streamStep FunctionBlock doc l us)"
    using step by simp_all
  from Cons.IH[OF this] show ?case by simp
qed

lemma if_fold_For:
  "filter (isBlockDiag ForBlock) (diagnostics (fold (ifLineStep doc) ls st))
   = filter (isBlockDiag ForBlock) (diagnostics st)"
  by (induction ls arbitrary: st) (simp_all add: ifLineStep_For)

lemma forLineStep_stream:
  "forLineStep doc l \<lparr>forDiagnostics = ds @ unmatchedOf ForBlock doc (fst us), forStack = snd us\<rparr>
   = \<lparr>forDiagnostics = ds @ unmatchedOf ForBlock doc (fst (streamStep ForBlock doc l us)),
       forStack = snd (streamStep ForBlock doc l us)\<rparr>"
  by (cases us)
     (simp add: forLineStep_def streamStep_def markerOf_def Let_def)

lemma for_fold:
  "fold (forLineStep doc) ls \<lparr>forDiagnostics = ds @ unmatchedOf ForBlock doc (fst us), forStack = snd us\<rparr>
   = \<lparr>forDiagnostics = ds @ unmatchedOf ForBlock doc (fst (fold (streamStep ForBlock doc) ls us)),
       forStack = snd (fold (streamStep ForBlock doc) ls us)\<rparr>"
  by (induction ls arbitrary: us) (simp_all add: forLineStep_stream)

lemma provideForDiagnostics_eq:
  "provideForDiagnostics doc ds = ds @ bracketDiagnostics ForBlock doc"
  using for_fold[of doc "[0..<length doc]" ds "([], [])"]
  by (simp add: provideForDiagnostics_def bracketDiagnostics_def bracketMatch_fold
        split: prod.splits)

lemma filter_unmatchedOf:
  "filter (isBlockDiag k) (unmatchedOf k' doc ls) = (if k = k' then unmatchedOf k' doc ls else [])"
  by (induction ls) (auto simp: isBlockDiag_def lineDiag_def)

lemma filter_missing:
  "filter (isBlockDiag k) (map (\<lambda>line. lineDiag doc line (MissingEnd k')) ls)
   = (if k = k' then map (\<lambda>line. lineDiag doc line (MissingEnd k')) ls else [])"
  by (induction ls) (auto simp: isBlockDiag_def lineDiag_def)

lemma filter_bracketDiagnostics:
  "filter (isBlockDiag k) (bracketDiagnostics k' doc) = (if k = k' then bracketDiagnostics k' doc else [])"
  by (simp add: bracketDiagnostics_def filter_unmatchedOf filter_missing split: prod.splits)

lemma imbalance_fold:
  "fold (bracketStep k) xs us = us' \<Longrightarrow>
   length (fst us') + length (snd us') = length (fst us) + imbalance (length (snd us)) (map (\<lambda>(line, text). markerOf k text) xs)"
proof (induction xs arbitrary: us)
  case Nil
  then show ?case by auto
next
  case (Cons x xs)
  obtain line tx where x: "x = (line, tx)" by (cases x)
  obtain U S where us: "us = (U, S)" by (cases us)
  from Cons.prems have "fold (bracketStep k) xs (bracketStep k x us) = us'" by simp
  from Cons.IH[OF this] show ?case
    by (cases "markerOf k tx") (auto simp: x us)
qed

text \<open>
  Claim C1. For every document and every block kind (If, For, Function), the diagnostics
  of that kind that the block validators report are exactly those of the stack-based
  bracket matcher over the non-comment lines: one "unmatched end" at each end line met with
  an empty stack, then one "missing end" at each start line left on the stack, where an
  \<open>@Else If\<close> line is no start. So their number is the structural imbalance of the
  kind's start and end markers.
\<close>

theorem block_validators_bracket_matching:
  "filter (isBlockDiag k) (provideIfDiagnostics doc) = bracketDiagnostics k doc
   \<and> length (filter (isBlockDiag k) (provideIfDiagnostics doc))
       = imbalance 0 (map (\<lambda>(line, text). markerOf k text) (lineStream doc))"
proof -
  let ?st = "fold (ifLineStep doc) [0..<length doc] \<lparr>diagnostics = [], ifStack = [], funcStack = []\<rparr>"
  let ?init = "\<lparr>diagnostics = [], ifStack = [], funcStack = []\<rparr>"
  have I: "filter (isBlockDiag IfBlock) (diagnostics ?st)
           = unmatchedOf IfBlock doc (fst (bracketMatch IfBlock doc))"
     "ifStack ?st = snd (bracketMatch IfBlock doc)"
    using if_fold_If[where st = ?init and doc = doc and us = "([], [])" and ls = "[0..<length doc]"]
    by (simp_all add: bracketMatch_fold)
  have F: "filter (isBlockDiag FunctionBlock) (diagnostics ?st)
           = unmatchedOf FunctionBlock doc (fst (bracketMatch FunctionBlock doc))"
     "funcStack ?st = snd (bracketMatch FunctionBlock doc)"
    using if_fold_Function[where st = ?init and doc = doc and us = "([], [])" and ls = "[0..<length doc]"]
    by (simp_all add: bracketMatch_fold)
  have R: "filter (isBlockDiag ForBlock) (diagnostics ?st) = []"
    using if_fold_For[of doc "[0..<length doc]" ?init] by simp
  have eq: "filter (isBlockDiag k) (provideIfDiagnostics doc) = bracketDiagnostics k doc"
  proof (cases k)
    case IfBlock
    show ?thesis unfolding IfBlock
      using I
      by (simp add: provideIfDiagnostics_def provideForDiagnostics_eq Let_def filter_missing
            filter_bracketDiagnostics filter_unmatchedOf bracketDiagnostics_def split: prod.splits)
  next
    case ForBlock
    show ?thesis unfolding ForBlock
      using R
      by (simp add: provideIfDiagnostics_def provideForDiagnostics_eq Let_def filter_missing
            filter_bracketDiagnostics)
  next
    case FunctionBlock
    show ?thesis unfolding FunctionBlock
      using F
      by (simp add: provideIfDiagnostics_def provideForDiagnostics_eq Let_def filter_missing
            filter_bracketDiagnostics filter_unmatchedOf bracketDiagnostics_def split: prod.splits)
  qed
  have "length (bracketDiagnostics k doc)
        = imbalance 0 (map (\<lambda>(line, text). markerOf k text) (lineStream doc))"
    using imbalance_fold[of k "lineStream doc" "([], [])" "bracketMatch k doc"]
    by (cases "bracketMatch k doc") (simp add: bracketDiagnostics_def bracketMatch_def)
  with eq show ?thesis by simp
qed


section \<open>The missing @Then\<close>

lemma hasThenNearNextLine_loop_find:
  "bound \<le> length doc \<Longrightarrow>
   hasThenNearNextLine_loop doc bound i =
     (case find (\<lambda>t. \<not> isBlankLine t \<and> \<not> isCommentLine t) (take (bound - i) (drop i doc)) of
        None \<Rightarrow> False
      | Some t \<Rightarrow> reThenStart t)"
proof (induction doc bound i rule: hasThenNearNextLine_loop.induct)
  case (1 doc bound i)
  show ?case
  proof (cases "i < bound")
    case False
    then show ?thesis by (subst hasThenNearNextLine_loop.simps) simp
  next
    case True
    with 1(3) have i: "i < length doc" by simp
    from True have "bound - i = Suc (bound - Suc i)" by simp
    then have unf: "take (bound - i) (drop i doc) = doc ! i # take (bound - Suc i) (drop (Suc i) doc)"
      using i by (simp add: Cons_nth_drop_Suc [symmetric])
    show ?thesis
    proof (cases "isBlankLine (doc ! i)")
      case b: True
      from 1(1)[OF True b 1(3)] True b show ?thesis
        by (subst hasThenNearNextLine_loop.simps) (simp add: unf)
    next
      case b: False
      show ?thesis
      proof (cases "isCommentLine (doc ! i)")
        case c: True
        from 1(2)[OF True b c 1(3)] True b c show ?thesis
          by (subst hasThenNearNextLine_loop.simps) (simp add: unf)
      next
        case c: False
        with True b show ?thesis
          by (subst hasThenNearNextLine_loop.simps) (simp add: unf)
      qed
    qed
  qed
qed

lemma hasThenNearNextLine_spec:
  "hasThenNearNextLine doc line = nextLineSuppliesThen doc line"
proof -
  let ?b = "min (length doc) (line + 3)"
  have "take (?b - (line + 1)) (drop (line + 1) doc) = take 2 (drop (Suc line) doc)"
    by (cases "line + 3 \<le> length doc") (simp_all add: min_def)
  with hasThenNearNextLine_loop_find[of ?b doc "line + 1"]
  show ?thesis by (simp add: hasThenNearNextLine_def nextLineSuppliesThen_def)
qed


lemma dropWhile_dropWhile_weaker:
  "(\<And>c. Q c \<Longrightarrow> P c) \<Longrightarrow> dropWhile P (dropWhile Q xs) = dropWhile P xs"
  by (induction xs) auto

lemma isSpaceCh_blank_tab: "c = CHR '' '' \<or> c = CHR 0x09 \<Longrightarrow> isSpaceCh c"
  by (auto simp: isSpaceCh_def)

lemma comment_dropWhile:
  assumes "isCommentLine t"
  shows "\<exists>r. dropWhile isSpaceCh t = CHR ''#'' # r"
proof -
  let ?Q = "\<lambda>c. c = CHR '' '' \<or> c = CHR 0x09"
  from assms obtain r where r: "dropWhile ?Q t = CHR ''#'' # r"
    by (auto simp: isCommentLine_def split: list.splits)
  have "dropWhile isSpaceCh t = dropWhile isSpaceCh (dropWhile ?Q t)"
    by (rule dropWhile_dropWhile_weaker [symmetric]) (rule isSpaceCh_blank_tab)
  also have "\<dots> = CHR ''#'' # r" by (simp add: r isSpaceCh_def)
  finally show ?thesis by blast
qed

lemma lowerCh_hash_at: "lowerCh (CHR ''#'') \<noteq> lowerCh (CHR ''@'')"
  by (simp add: lowerCh_def)

lemma comment_not_if:
  assumes "isCommentLine t"
  shows "\<not> reIf t" "\<not> reElseIf t"
proof -
  from comment_dropWhile[OF assms] obtain r where r: "dropWhile isSpaceCh t = CHR ''#'' # r" by blast
  have no: "\<not> startsWithCI (CHR ''@'' # kw) (CHR ''#'' # r)" for kw
    using startsWithCI_nth[of "CHR ''@'' # kw" "CHR ''#'' # r" 0] lowerCh_hash_at by auto
  show "\<not> reIf t" using no[of "''If''"] by (simp add: reIf_def kwAt_def r)
  show "\<not> reElseIf t" using no[of "''Else''"] by (simp add: reElseIf_def kw2At_def r)
qed

lemma ifLineStep_missingThen:
  "filter (\<lambda>d. dline d = L \<and> dmsg d = MissingThen) (diagnostics (ifLineStep doc l st))
   = filter (\<lambda>d. dline d = L \<and> dmsg d = MissingThen) (diagnostics st)
     @ (if l = L \<and> (reIf (doc ! l) \<or> reElseIf (doc ! l)) \<and> \<not> thenReachable doc l
        then [lineDiag doc l MissingThen] else [])"
  using comment_not_if[of "doc ! l"]
  by (auto simp: ifLineStep_def Let_def lineDiag_def thenReachable_def hasThenNearNextLine_spec)

lemma if_fold_missingThen:
  "filter (\<lambda>d. dline d = L \<and> dmsg d = MissingThen) (diagnostics (fold (ifLineStep doc) [0..<n] st))
   = filter (\<lambda>d. dline d = L \<and> dmsg d = MissingThen) (diagnostics st)
     @ (if L < n \<and> (reIf (doc ! L) \<or> reElseIf (doc ! L)) \<and> \<not> thenReachable doc L
        then [lineDiag doc L MissingThen] else [])"
proof (induction n)
  case 0
  show ?case by simp
next
  case (Suc n)
  show ?case
    by (simp only: upt_Suc_append [OF le0] fold_append o_apply fold.simps id_apply
          ifLineStep_missingThen Suc.IH)
       (auto simp: less_Suc_eq)
qed

text \<open>
  Claim C5. For every \<open>@If\<close> or \<open>@Else If\<close> line of a document, the validator emits the
  "missing @Then" diagnostic on that line (once, over the whole line) if and only if
  \<open>@Then\<close> is neither on the same line nor supplied by the first non-blank, non-comment
  line among the two lines that follow; when \<open>@Then\<close> is reachable by either route, it
  emits none for that line.
\<close>

theorem then_presence:
  assumes "line < length doc" and "reIf (doc ! line) \<or> reElseIf (doc ! line)"
  shows "filter (\<lambda>d. dline d = line \<and> dmsg d = MissingThen) (provideIfDiagnostics doc)
         = (if thenReachable doc line then [] else [lineDiag doc line MissingThen])"
proof -
  have other: "filter (\<lambda>d. dline d = line \<and> dmsg d = MissingThen)
                 (map (\<lambda>l. lineDiag doc l m) ls) = []" if "m \<noteq> MissingThen" for m ls
    using that by (induction ls) (simp_all add: lineDiag_def)
  show ?thesis
    using assms
    by (simp add: provideIfDiagnostics_def provideForDiagnostics_eq Let_def if_fold_missingThen
          bracketDiagnostics_def other split: prod.splits)
qed

theorem then_presence_witness:
  "filter (\<lambda>d. dline d = 0 \<and> dmsg d = MissingThen) (provideIfDiagnostics [''@If a = b''])
         = [lineDiag [''@If a = b''] 0 MissingThen]"
proof -
  have h: "reIf ([''@If a = b''] ! 0) \<or> reElseIf ([''@If a = b''] ! 0)"
    by (simp add: reIf_def kwAt_def startsWithCI_def lowerCh_def wordEnd_def isIdentCh_def isSpaceCh_def)
  have n: "\<not> thenReachable [''@If a = b''] 0"
    by (simp add: thenReachable_def nextLineSuppliesThen_def kwAt_def startsWithCI_def lowerCh_def)
  from then_presence[of 0 "[''@If a = b'']", OF _ h] n show ?thesis by simp
qed

section \<open>Declared names accumulate top-down\<close>

lemma varLineStep_global_mono: "globalDeclared st \<subseteq> globalDeclared (varLineStep doc ltf l st)"
  by (auto simp: varLineStep_def Let_def split: option.splits)

lemma varLineStep_local_mono:
  "localDeclaredByFunc st f \<subseteq> localDeclaredByFunc (varLineStep doc ltf l st) f"
  by (auto simp: varLineStep_def Let_def split: option.splits)

lemma varStateAfter_Suc:
  "varStateAfter doc (Suc n) = varLineStep doc (buildFuncLineMap doc) n (varStateAfter doc n)"
  by (simp add: varStateAfter_def)

lemma varStateAfter_mono_step:
  "globalDeclared (varStateAfter doc n) \<subseteq> globalDeclared (varStateAfter doc (n + k))
   \<and> localDeclaredByFunc (varStateAfter doc n) f \<subseteq> localDeclaredByFunc (varStateAfter doc (n + k)) f"
proof (induction k)
  case 0
  show ?case by simp
next
  case (Suc k)
  have "globalDeclared (varStateAfter doc (n + k)) \<subseteq> globalDeclared (varStateAfter doc (Suc (n + k)))"
    unfolding varStateAfter_Suc by (rule varLineStep_global_mono)
  moreover have "localDeclaredByFunc (varStateAfter doc (n + k)) f
      \<subseteq> localDeclaredByFunc (varStateAfter doc (Suc (n + k))) f"
    unfolding varStateAfter_Suc by (rule varLineStep_local_mono)
  ultimately show ?case using Suc by auto
qed

lemma varStateAfter_mono:
  assumes "m \<le> n"
  shows "globalDeclared (varStateAfter doc m) \<subseteq> globalDeclared (varStateAfter doc n)"
    and "localDeclaredByFunc (varStateAfter doc m) f \<subseteq> localDeclaredByFunc (varStateAfter doc n) f"
  using varStateAfter_mono_step[of doc m "n - m" f] assms by simp_all

lemma useDiags_filter_allowed:
  assumes "l \<noteq> L \<or> allowedInThisLine st funcId n"
  shows "filter (\<lambda>d. dline d = L \<and> isUndeclaredDiag n d) (useDiags p st l funcId text) = []"
  using assms
  by (auto simp: useDiags_def useDiag_def isUndeclaredDiag_def filter_empty_conv split: prod.splits)

lemma varLineStep_filter_allowed:
  assumes "l \<noteq> L \<or> allowedInThisLine (varLineStep doc ltf l st) (ltf ! l) n"
  shows "filter (\<lambda>d. dline d = L \<and> isUndeclaredDiag n d) (vdiagnostics (varLineStep doc ltf l st))
         = filter (\<lambda>d. dline d = L \<and> isUndeclaredDiag n d) (vdiagnostics st)"
proof (cases "isUseLine (doc ! l)")
  case True
  then have eq: "varLineStep doc ltf l st
     = st\<lparr>vdiagnostics := vdiagnostics st
          @ useDiags SetUse st l (ltf ! l) (stripSingleQuoted2 (doc ! l))
          @ useDiags GetUse st l (ltf ! l) (stripSingleQuoted2 (doc ! l))\<rparr>"
    by (simp add: varLineStep_def isUseLine_def Let_def)
  then have "allowedInThisLine (varLineStep doc ltf l st) (ltf ! l) n = allowedInThisLine st (ltf ! l) n"
    by (simp add: allowedInThisLine_def)
  with assms have "l \<noteq> L \<or> allowedInThisLine st (ltf ! l) n" by simp
  from useDiags_filter_allowed[OF this] show ?thesis by (simp add: eq)
next
  case False
  then have "vdiagnostics (varLineStep doc ltf l st) = vdiagnostics st"
    by (auto simp: varLineStep_def isUseLine_def Let_def split: option.splits)
  then show ?thesis by simp
qed

lemma no_diag_for_allowed:
  assumes "L < N \<longrightarrow> allowedInThisLine (varStateAfter doc (Suc L)) (buildFuncLineMap doc ! L) n"
  shows "filter (\<lambda>d. dline d = L \<and> isUndeclaredDiag n d) (vdiagnostics (varStateAfter doc N)) = []"
  using assms
proof (induction N)
  case 0
  show ?case by (simp add: varStateAfter_def)
next
  case (Suc N)
  have cond: "N \<noteq> L \<or> allowedInThisLine (varLineStep doc (buildFuncLineMap doc) N (varStateAfter doc N))
               (buildFuncLineMap doc ! N) n"
    using Suc.prems by (auto simp: varStateAfter_Suc)
  have prev: "filter (\<lambda>d. dline d = L \<and> isUndeclaredDiag n d) (vdiagnostics (varStateAfter doc N)) = []"
  proof (cases "L < N")
    case True
    with Suc show ?thesis by simp
  next
    case False
    then show ?thesis by (rule_tac Suc.IH) simp
  qed
  show ?case
    unfolding varStateAfter_Suc varLineStep_filter_allowed[OF cond] by (rule prev)
qed


lemma vdiagnostics_grow_step:
  "set (vdiagnostics st) \<subseteq> set (vdiagnostics (varLineStep doc ltf l st))"
  by (auto simp: varLineStep_def Let_def split: option.splits)

lemma vdiagnostics_grow:
  "set (vdiagnostics (varStateAfter doc n)) \<subseteq> set (vdiagnostics (varStateAfter doc (n + k)))"
proof (induction k)
  case 0
  show ?case by simp
next
  case (Suc k)
  have "set (vdiagnostics (varStateAfter doc (n + k))) \<subseteq> set (vdiagnostics (varStateAfter doc (Suc (n + k))))"
    unfolding varStateAfter_Suc by (rule vdiagnostics_grow_step)
  with Suc show ?case by auto
qed

lemma useDiags_reports:
  assumes "(idx, whole, n) \<in> set (execAll p 0 text)" and "\<not> allowedInThisLine st funcId n"
  shows "\<exists>d\<in>set (useDiags p st l funcId text).
           dline d = l \<and> dmsg d = (if funcId = - 1 then UndeclaredGlobal n else UndeclaredInFunction n)"
proof -
  from assms have "useDiag p l funcId (idx, whole, n) \<in> set (useDiags p st l funcId text)"
    by (auto simp: useDiags_def)
  moreover have "dline (useDiag p l funcId (idx, whole, n)) = l"
    "dmsg (useDiag p l funcId (idx, whole, n))
       = (if funcId = - 1 then UndeclaredGlobal n else UndeclaredInFunction n)"
    by (simp_all add: useDiag_def)
  ultimately show ?thesis by blast
qed

lemma varLineStep_reports:
  assumes "isUseLine (doc ! l)" and "n \<in> usedNames (doc ! l)"
    and "\<not> allowedInThisLine st (ltf ! l) n"
  shows "\<exists>d\<in>set (vdiagnostics (varLineStep doc ltf l st)).
           dline d = l \<and> dmsg d = (if ltf ! l = - 1 then UndeclaredGlobal n else UndeclaredInFunction n)"
proof -
  from assms(1) have eq: "vdiagnostics (varLineStep doc ltf l st)
     = vdiagnostics st
          @ useDiags SetUse st l (ltf ! l) (stripSingleQuoted2 (doc ! l))
          @ useDiags GetUse st l (ltf ! l) (stripSingleQuoted2 (doc ! l))"
    by (simp add: varLineStep_def isUseLine_def Let_def)
  from assms(2) obtain idx whole p where "(idx, whole, n) \<in> set (execAll p 0 (stripSingleQuoted2 (doc ! l)))"
    and p: "p = SetUse \<or> p = GetUse"
    by (auto simp: usedNames_def)
  from useDiags_reports[OF this(1) assms(3), of l] p show ?thesis
    unfolding eq by auto
qed

lemma declaration_enters:
  assumes "declaredAt (doc ! L) = Some n"
  shows "n \<in> declaredSet (varStateAfter doc (Suc L)) (buildFuncLineMap doc ! L)"
proof -
  from assms have "\<not> isBlankLine (doc ! L)" "\<not> isCommentLine (doc ! L)"
    "fnNameRe (stripSingleQuoted2 (doc ! L)) = None" "declRe (stripSingleQuoted2 (doc ! L)) = Some n"
    by (auto simp: declaredAt_def split: if_splits)
  then show ?thesis
    by (simp add: varStateAfter_Suc varLineStep_def Let_def declaredSet_def)
qed

lemma useDiags_line: "d \<in> set (useDiags p st l funcId text) \<Longrightarrow> dline d = l"
  by (auto simp: useDiags_def useDiag_def)

lemma vdiagnostics_not_use_line:
  "\<not> isUseLine (doc ! l) \<Longrightarrow> vdiagnostics (varLineStep doc ltf l st) = vdiagnostics st"
  by (auto simp: varLineStep_def isUseLine_def Let_def split: option.splits)

lemma vdiagnostics_use_line:
  "isUseLine (doc ! l) \<Longrightarrow> vdiagnostics (varLineStep doc ltf l st)
     = vdiagnostics st
          @ useDiags SetUse st l (ltf ! l) (stripSingleQuoted2 (doc ! l))
          @ useDiags GetUse st l (ltf ! l) (stripSingleQuoted2 (doc ! l))"
  by (simp add: varLineStep_def isUseLine_def Let_def)

lemma fold_funcLineStep_index:
  "fold funcLineStep doc st = fold (\<lambda>j. funcLineStep (doc ! j)) [0..<length doc] st"
proof -
  have "fold funcLineStep (map ((!) doc) [0..<length doc]) st
      = fold (\<lambda>j. funcLineStep (doc ! j)) [0..<length doc] st"
    by (simp add: fold_map comp_def)
  then show ?thesis by (simp add: map_nth)
qed

lemma functionLinesBefore_Suc:
  "functionLinesBefore doc (Suc n)
     = functionLinesBefore doc n @ (if reFunction (doc ! n) then [n] else [])"
  by (simp add: functionLinesBefore_def)

lemma functionLinesBefore_less: "j \<in> set (functionLinesBefore doc n) \<Longrightarrow> j < n"
  by (simp add: functionLinesBefore_def)

lemma funcLineMap_invariant:
  "fold (\<lambda>j. funcLineStep (doc ! j)) [0..<n] (- 1, False, [])
     = (int (length (functionLinesBefore doc n)) - 1, openFunctionBefore doc n,
        map (scopeOf doc) [0..<n])"
proof (induction n)
  case 0
  show ?case by (simp add: functionLinesBefore_def openFunctionBefore_def)
next
  case (Suc n)
  show ?case
  proof (cases "reFunction (doc ! n)")
    case True
    then show ?thesis
      by (simp add: Suc functionLinesBefore_Suc openFunctionBefore_def scopeOf_def)
  next
    case False
    show ?thesis
    proof (cases "rev (functionLinesBefore doc n)")
      case Nil
      with False show ?thesis
        by (simp add: Suc functionLinesBefore_Suc openFunctionBefore_def scopeOf_def)
    next
      case (Cons j earlier)
      then have "j \<in> set (functionLinesBefore doc n)"
        by (metis list.set_intros(1) set_rev)
      then have j: "j < n" by (rule functionLinesBefore_less)
      from Cons have len: "length (functionLinesBefore doc n) = Suc (length earlier)"
        by (metis length_Cons length_rev)
      from False Cons j show ?thesis
        by (simp add: Suc functionLinesBefore_Suc openFunctionBefore_def scopeOf_def len)
    qed
  qed
qed

lemma buildFuncLineMap_scopeOf:
  assumes "L < length doc"
  shows "buildFuncLineMap doc ! L = scopeOf doc L"
proof -
  have "buildFuncLineMap doc = map (scopeOf doc) [0..<length doc]"
    by (simp add: buildFuncLineMap_def fold_funcLineStep_index funcLineMap_invariant)
  with assms show ?thesis by simp
qed

lemma varLineStep_global:
  "globalDeclared (varLineStep doc ltf l st)
     = globalDeclared st \<union> {n. declaredAt (doc ! l) = Some n \<and> ltf ! l = - 1}"
  by (auto simp: varLineStep_def declaredAt_def Let_def split: option.splits if_splits)

lemma varLineStep_local:
  "localDeclaredByFunc (varLineStep doc ltf l st) f
     = localDeclaredByFunc st f
       \<union> {n. ltf ! l = f \<and> f \<noteq> - 1
              \<and> (declaredAt (doc ! l) = Some n \<or> functionNameAt (doc ! l) = Some n)}"
  by (auto simp: varLineStep_def declaredAt_def functionNameAt_def Let_def
      split: option.splits if_splits)

lemma varStateAfter_global:
  "n \<in> globalDeclared (varStateAfter doc L)
     \<longleftrightarrow> (\<exists>j<L. declaredAt (doc ! j) = Some n \<and> buildFuncLineMap doc ! j = - 1)"
proof (induction L)
  case 0
  show ?case by (simp add: varStateAfter_def)
next
  case (Suc L)
  show ?case unfolding varStateAfter_Suc varLineStep_global using Suc
    by (auto simp: less_Suc_eq)
qed

lemma varStateAfter_local:
  "n \<in> localDeclaredByFunc (varStateAfter doc L) f
     \<longleftrightarrow> (\<exists>j<L. buildFuncLineMap doc ! j = f \<and> f \<noteq> - 1
            \<and> (declaredAt (doc ! j) = Some n \<or> functionNameAt (doc ! j) = Some n))"
proof (induction L)
  case 0
  show ?case by (simp add: varStateAfter_def)
next
  case (Suc L)
  show ?case unfolding varStateAfter_Suc varLineStep_local using Suc
    by (auto simp: less_Suc_eq)
qed

lemma allowed_iff_visible:
  assumes "L < length doc"
  shows "allowedInThisLine (varStateAfter doc L) (scopeOf doc L) n
     \<longleftrightarrow> visibleDeclBefore doc L n"
proof -
  have sc: "buildFuncLineMap doc ! j = scopeOf doc j" if "j < L" for j
    using that assms by (intro buildFuncLineMap_scopeOf) simp
  have g: "n \<in> globalDeclared (varStateAfter doc L)
     \<longleftrightarrow> (\<exists>j<L. declaredAt (doc ! j) = Some n \<and> scopeOf doc j = - 1)"
    unfolding varStateAfter_global using sc by auto
  have l: "n \<in> localDeclaredByFunc (varStateAfter doc L) f
     \<longleftrightarrow> (\<exists>j<L. scopeOf doc j = f \<and> f \<noteq> - 1
            \<and> (declaredAt (doc ! j) = Some n \<or> functionNameAt (doc ! j) = Some n))" for f
    unfolding varStateAfter_local using sc by auto
  show ?thesis
    unfolding allowedInThisLine_def visibleDeclBefore_def declaresFor_def Let_def g l
    by auto
qed

lemma varLineStep_unscanned_filter:
  assumes "l \<noteq> L \<or> \<not> isUseLine (doc ! l)"
  shows "filter (\<lambda>d. dline d = L) (vdiagnostics (varLineStep doc ltf l st))
         = filter (\<lambda>d. dline d = L) (vdiagnostics st)"
proof (cases "isUseLine (doc ! l)")
  case True
  with assms have ne: "l \<noteq> L" by auto
  have "filter (\<lambda>d. dline d = L) (useDiags p st l (ltf ! l) (stripSingleQuoted2 (doc ! l))) = []" for p
    using ne useDiags_line[of _ p st l "ltf ! l" "stripSingleQuoted2 (doc ! l)"]
    by (auto simp: filter_empty_conv)
  then show ?thesis by (simp add: vdiagnostics_use_line[OF True])
next
  case False
  then show ?thesis by (simp add: vdiagnostics_not_use_line)
qed

lemma no_diag_on_unscanned_line:
  assumes "\<not> isUseLine (doc ! L)"
  shows "filter (\<lambda>d. dline d = L) (vdiagnostics (varStateAfter doc N)) = []"
proof (induction N)
  case 0
  show ?case by (simp add: varStateAfter_def)
next
  case (Suc N)
  have "N \<noteq> L \<or> \<not> isUseLine (doc ! N)" using assms by auto
  from varLineStep_unscanned_filter[OF this] Suc show ?case by (simp add: varStateAfter_Suc)
qed

text \<open>
  Claim C3, as the validator has it. Declared-name sets accumulate top-down. A
  \<open>@String\<close> / \<open>@Int\<close> declaration on line \<open>L\<close> puts its name in the declared-set of the
  scope of \<open>L\<close> (the global set at top level). Once a name is in the declared-set of a
  scope after line \<open>L\<close>, no line \<open>L' \<ge> L\<close> of that scope gets an undeclared-variable
  diagnostic about it. A \<open>@Get\<close> / \<open>@Set\<close> use of a name on a line \<open>L''\<close> that the
  validator scans for uses (not blank, not a comment, not a \<open>@Function\<close> line with a name,
  not a \<open>@String\<close> / \<open>@Int\<close> declaration line) gets an undeclared-variable diagnostic
  exactly when no line above \<open>L''\<close> makes a declaration of the name visible from the
  scope of \<open>L''\<close>: what later lines declare changes nothing. A line that is not scanned
  for uses gets no diagnostic at all.
\<close>

theorem scope_monotonicity:
  "(declaredAt (doc ! L) = Some n \<and> L < length doc
    \<longrightarrow> n \<in> declaredSet (varStateAfter doc (Suc L)) (scopeOf doc L))
   \<and> (n \<in> declaredSet (varStateAfter doc (Suc L)) scope \<and> L \<le> L' \<and> L' < length doc
      \<and> scopeOf doc L' = scope
    \<longrightarrow> filter (\<lambda>d. dline d = L' \<and> isUndeclaredDiag n d) (provideUndeclaredVarDiagnostics doc) = [])
   \<and> (L'' < length doc \<and> isUseLine (doc ! L'') \<and> n \<in> usedNames (doc ! L'')
    \<longrightarrow> ((\<exists>d\<in>set (provideUndeclaredVarDiagnostics doc). dline d = L'' \<and> isUndeclaredDiag n d)
         \<longleftrightarrow> \<not> visibleDeclBefore doc L'' n))
   \<and> (\<not> isUseLine (doc ! K)
    \<longrightarrow> filter (\<lambda>d. dline d = K) (provideUndeclaredVarDiagnostics doc) = [])"
proof (intro conjI impI)
  assume "declaredAt (doc ! L) = Some n \<and> L < length doc"
  then show "n \<in> declaredSet (varStateAfter doc (Suc L)) (scopeOf doc L)"
    using declaration_enters[of doc L n] by (simp add: buildFuncLineMap_scopeOf)
next
  assume a0: "n \<in> declaredSet (varStateAfter doc (Suc L)) scope \<and> L \<le> L' \<and> L' < length doc
      \<and> scopeOf doc L' = scope"
  then have a: "n \<in> declaredSet (varStateAfter doc (Suc L)) scope \<and> L \<le> L' \<and> L' < length doc
      \<and> buildFuncLineMap doc ! L' = scope"
    by (simp add: buildFuncLineMap_scopeOf)
  then have le: "Suc L \<le> Suc L'" by simp
  from a varStateAfter_mono(1)[OF le, of doc] varStateAfter_mono(2)[OF le, of doc scope]
  have "n \<in> declaredSet (varStateAfter doc (Suc L')) scope"
    by (auto simp: declaredSet_def)
  then have "allowedInThisLine (varStateAfter doc (Suc L')) (buildFuncLineMap doc ! L') n"
    using a by (auto simp: declaredSet_def allowedInThisLine_def split: if_splits)
  then show "filter (\<lambda>d. dline d = L' \<and> isUndeclaredDiag n d) (provideUndeclaredVarDiagnostics doc) = []"
    unfolding provideUndeclaredVarDiagnostics_def by (intro no_diag_for_allowed) simp
next
  assume b: "L'' < length doc \<and> isUseLine (doc ! L'') \<and> n \<in> usedNames (doc ! L'')"
  then have inr: "L'' < length doc" by blast
  let ?scope = "buildFuncLineMap doc ! L''"
  have sc: "?scope = scopeOf doc L''" using inr by (rule buildFuncLineMap_scopeOf)
  show "(\<exists>d\<in>set (provideUndeclaredVarDiagnostics doc). dline d = L'' \<and> isUndeclaredDiag n d)
         \<longleftrightarrow> \<not> visibleDeclBefore doc L'' n"
  proof
    assume ex: "\<exists>d\<in>set (provideUndeclaredVarDiagnostics doc). dline d = L'' \<and> isUndeclaredDiag n d"
    show "\<not> visibleDeclBefore doc L'' n"
    proof
      assume "visibleDeclBefore doc L'' n"
      then have al: "allowedInThisLine (varStateAfter doc L'') ?scope n"
        by (simp add: allowed_iff_visible[OF inr] sc)
      have le: "L'' \<le> Suc L''" by simp
      from al varStateAfter_mono(1)[OF le, of doc] varStateAfter_mono(2)[OF le, of doc ?scope]
      have "allowedInThisLine (varStateAfter doc (Suc L'')) ?scope n"
        by (auto simp: allowedInThisLine_def split: if_splits)
      then have "filter (\<lambda>d. dline d = L'' \<and> isUndeclaredDiag n d)
          (provideUndeclaredVarDiagnostics doc) = []"
        unfolding provideUndeclaredVarDiagnostics_def by (intro no_diag_for_allowed) simp
      with ex show False by (auto simp: filter_empty_conv)
    qed
  next
    assume "\<not> visibleDeclBefore doc L'' n"
    then have na: "\<not> allowedInThisLine (varStateAfter doc L'') ?scope n"
      by (simp add: allowed_iff_visible[OF inr] sc)
    from b have use: "isUseLine (doc ! L'')" "n \<in> usedNames (doc ! L'')" by blast+
    have "\<exists>d\<in>set (vdiagnostics (varStateAfter doc (Suc L''))).
           dline d = L'' \<and> isUndeclaredDiag n d"
      unfolding varStateAfter_Suc
      using varLineStep_reports[OF use na]
      by (auto simp: isUndeclaredDiag_def split: if_splits)
    moreover have "set (vdiagnostics (varStateAfter doc (Suc L''))) \<subseteq> set (provideUndeclaredVarDiagnostics doc)"
    proof -
      from b have "L'' < length doc" by blast
      then have "Suc L'' + (length doc - Suc L'') = length doc" by arith
      with vdiagnostics_grow[of doc "Suc L''" "length doc - Suc L''"]
      show ?thesis by (simp only: provideUndeclaredVarDiagnostics_def)
    qed
    ultimately show "\<exists>d\<in>set (provideUndeclaredVarDiagnostics doc). dline d = L'' \<and> isUndeclaredDiag n d"
      by blast
  qed
next
  assume "\<not> isUseLine (doc ! K)"
  then show "filter (\<lambda>d. dline d = K) (provideUndeclaredVarDiagnostics doc) = []"
    unfolding provideUndeclaredVarDiagnostics_def by (rule no_diag_on_unscanned_line)
qed

theorem scope_monotonicity_witness:
  "''x'' \<in> declaredSet (varStateAfter exampleFunctionDoc (Suc 2)) 0
   \<and> filter (\<lambda>d. dline d = 3 \<and> isUndeclaredDiag ''x'' d)
     (provideUndeclaredVarDiagnostics exampleFunctionDoc) = []
   \<and> \<not> visibleDeclBefore exampleFunctionDoc 1 ''x''
   \<and> (\<exists>d\<in>set (provideUndeclaredVarDiagnostics exampleFunctionDoc).
         dline d = 1 \<and> isUndeclaredDiag ''x'' d)
   \<and> filter (\<lambda>d. dline d = 2) (provideUndeclaredVarDiagnostics exampleFunctionDoc) = []
   \<and> declaredAt (lateDeclarationDoc ! 1) = Some ''g''
   \<and> \<not> visibleDeclBefore lateDeclarationDoc 0 ''g''
   \<and> (\<exists>d\<in>set (provideUndeclaredVarDiagnostics lateDeclarationDoc).
         dline d = 0 \<and> isUndeclaredDiag ''g'' d)"
proof -
  have h0: "declaredAt (exampleFunctionDoc ! 2) = Some ''x''" by code_simp
  have h2: "scopeOf exampleFunctionDoc 2 = 0" "scopeOf exampleFunctionDoc 3 = 0"
    by code_simp+
  have h3: "isUseLine (exampleFunctionDoc ! 1)" by code_simp
  have h4: "''x'' \<in> usedNames (exampleFunctionDoc ! 1)" by code_simp
  have h5: "\<not> visibleDeclBefore exampleFunctionDoc 1 ''x''" by code_simp
  have h6: "length exampleFunctionDoc = 5" by code_simp
  have h7: "\<not> isUseLine (exampleFunctionDoc ! 2)" by code_simp
  have g0: "declaredAt (lateDeclarationDoc ! 1) = Some ''g''" by code_simp
  have g1: "0 < length lateDeclarationDoc" by code_simp
  have g3: "isUseLine (lateDeclarationDoc ! 0)" by code_simp
  have g4: "''g'' \<in> usedNames (lateDeclarationDoc ! 0)" by code_simp
  have g5: "\<not> visibleDeclBefore lateDeclarationDoc 0 ''g''" by code_simp
  from scope_monotonicity [of exampleFunctionDoc 2 "''x''" 0 3 1 2] h0 h2 h3 h4 h5 h6 h7
  have first: "''x'' \<in> declaredSet (varStateAfter exampleFunctionDoc (Suc 2)) 0
   \<and> filter (\<lambda>d. dline d = 3 \<and> isUndeclaredDiag ''x'' d)
     (provideUndeclaredVarDiagnostics exampleFunctionDoc) = []
   \<and> (\<exists>d\<in>set (provideUndeclaredVarDiagnostics exampleFunctionDoc).
         dline d = 1 \<and> isUndeclaredDiag ''x'' d)
   \<and> filter (\<lambda>d. dline d = 2) (provideUndeclaredVarDiagnostics exampleFunctionDoc) = []"
    by simp
  from scope_monotonicity [of lateDeclarationDoc 1 "''g''" 0 1 0 1] g1 g3 g4 g5
  have second: "\<exists>d\<in>set (provideUndeclaredVarDiagnostics lateDeclarationDoc).
         dline d = 0 \<and> isUndeclaredDiag ''g'' d"
    by simp
  from first h5 g0 g5 second show ?thesis by simp
qed

text \<open>
  Without the restriction to scanned lines the rejection of early uses fails: on the
  document \<open>declarationLineUseDoc\<close> the second line declares \<open>x\<close> at top level, the first
  line, at top level too, uses \<open>x\<close> in \<open>@Get(x)\<close> with no declaration of \<open>x\<close> above it,
  and the validator reports nothing, because the first line is a declaration line.
\<close>

theorem scope_monotonicity_counterexample:
  "declaredAt (declarationLineUseDoc ! 1) = Some ''x''
   \<and> ''x'' \<in> usedNames (declarationLineUseDoc ! 0)
   \<and> scopeOf declarationLineUseDoc 0 = scopeOf declarationLineUseDoc 1
   \<and> \<not> visibleDeclBefore declarationLineUseDoc 0 ''x''
   \<and> provideUndeclaredVarDiagnostics declarationLineUseDoc = []"
  by code_simp

section \<open>The name of a function is declared in the function\<close>

lemma funcLineStep_fold:
  "fold funcLineStep xs (i, b, out) = (i', b', out') \<Longrightarrow> - 1 \<le> i \<Longrightarrow>
   i \<le> i' \<and> (\<exists>new. out' = out @ new \<and> length new = length xs \<and> (\<forall>v\<in>set new. v \<le> i'))"
proof (induction xs arbitrary: i b out)
  case Nil
  then show ?case by simp
next
  case (Cons x xs)
  obtain j c out1 where step: "funcLineStep x (i, b, out) = (j, c, out1)"
    by (cases "funcLineStep x (i, b, out)")
  then have j: "i \<le> j" and o: "\<exists>v. out1 = out @ [v] \<and> v \<le> j"
    using Cons.prems(2) by (auto split: if_splits)
  from Cons.prems(1) step have "fold funcLineStep xs (j, c, out1) = (i', b', out')" by simp
  from Cons.IH[OF this] j Cons.prems(2)
  obtain new where n: "j \<le> i'" "out' = out1 @ new" "length new = length xs" "\<forall>v\<in>set new. v \<le> i'"
    by auto
  from o obtain v where v: "out1 = out @ [v]" "v \<le> j" by blast
  have "out' = out @ (v # new)" "length (v # new) = length (x # xs)" "\<forall>w\<in>set (v # new). w \<le> i'"
    using n v by auto
  with j n(1) show ?case by (intro conjI exI[of _ "v # new"]) auto
qed

lemma buildFuncLineMap_at_function:
  assumes "L < length doc" and "reFunction (doc ! L)"
  shows "0 \<le> buildFuncLineMap doc ! L"
    and "L' < L \<Longrightarrow> buildFuncLineMap doc ! L' < buildFuncLineMap doc ! L"
proof -
  let ?pre = "take L doc" and ?post = "drop (Suc L) doc"
  have doc: "doc = ?pre @ doc ! L # ?post" using assms(1) by (rule id_take_nth_drop)
  obtain i b out where pre: "fold funcLineStep ?pre (- 1, False, []) = (i, b, out)"
    by (cases "fold funcLineStep ?pre (- 1, False, [])")
  from funcLineStep_fold[OF pre]
  have i: "- 1 \<le> i" and out: "length out = L" "\<forall>v\<in>set out. v \<le> i"
    using assms(1) by auto
  obtain i' b' out' where post: "fold funcLineStep ?post (i + 1, True, out @ [i + 1]) = (i', b', out')"
    by (cases "fold funcLineStep ?post (i + 1, True, out @ [i + 1])")
  from funcLineStep_fold[OF post] i obtain new where new: "out' = (out @ [i + 1]) @ new" by auto
  have "fold funcLineStep doc (- 1, False, []) = fold funcLineStep ?post (funcLineStep (doc ! L) (i, b, out))"
    by (subst doc) (simp add: pre)
  also have "\<dots> = (i', b', out')" using assms(2) post by simp
  finally have ltf: "buildFuncLineMap doc = out @ [i + 1] @ new"
    by (simp add: buildFuncLineMap_def new)
  have at: "buildFuncLineMap doc ! L = i + 1"
    unfolding ltf using out(1) by (simp add: nth_append)
  with i show "0 \<le> buildFuncLineMap doc ! L" by simp
  assume "L' < L"
  then have "buildFuncLineMap doc ! L' = out ! L'" "out ! L' \<in> set out"
    unfolding ltf using out(1) by (simp_all add: nth_append)
  with out(2) at show "buildFuncLineMap doc ! L' < buildFuncLineMap doc ! L" by auto
qed

lemma reFunction_not_blank_comment:
  assumes "reFunction t"
  shows "\<not> isBlankLine t" "\<not> isCommentLine t"
proof -
  from assms have sw: "startsWithCI ''@Function'' (dropWhile isSpaceCh t)"
    by (simp add: reFunction_def kwAt_def)
  show "\<not> isBlankLine t"
  proof
    assume "isBlankLine t"
    then have "dropWhile isSpaceCh t = []" by (simp add: isBlankLine_def list_all_iff)
    with sw show False by (simp add: startsWithCI_def)
  qed
  show "\<not> isCommentLine t"
  proof
    assume "isCommentLine t"
    from comment_dropWhile[OF this] obtain r where "dropWhile isSpaceCh t = CHR ''#'' # r" by blast
    with sw startsWithCI_nth[of "''@Function''" "CHR ''#'' # r" 0] lowerCh_hash_at
    show False by auto
  qed
qed

lemma varLineStep_line_filter:
  assumes "l \<noteq> L \<or> fnNameRe (stripSingleQuoted2 (doc ! l)) \<noteq> None"
  shows "filter (\<lambda>d. dline d = L) (vdiagnostics (varLineStep doc ltf l st))
         = filter (\<lambda>d. dline d = L) (vdiagnostics st)"
proof (cases "isUseLine (doc ! l)")
  case True
  with assms have ne: "l \<noteq> L" by (auto simp: isUseLine_def)
  have "filter (\<lambda>d. dline d = L) (useDiags p st l (ltf ! l) (stripSingleQuoted2 (doc ! l))) = []" for p
    using ne useDiags_line[of _ p st l "ltf ! l" "stripSingleQuoted2 (doc ! l)"]
    by (auto simp: filter_empty_conv)
  then show ?thesis by (simp add: vdiagnostics_use_line[OF True])
next
  case False
  then show ?thesis by (simp add: vdiagnostics_not_use_line)
qed

lemma no_diag_on_function_line:
  assumes "fnNameRe (stripSingleQuoted2 (doc ! L)) \<noteq> None"
  shows "filter (\<lambda>d. dline d = L) (vdiagnostics (varStateAfter doc N)) = []"
proof (induction N)
  case 0
  show ?case by (simp add: varStateAfter_def)
next
  case (Suc N)
  have "N \<noteq> L \<or> fnNameRe (stripSingleQuoted2 (doc ! N)) \<noteq> None" using assms by auto
  from varLineStep_line_filter[OF this] Suc show ?case by (simp add: varStateAfter_Suc)
qed

text \<open>
  Masking the quoted spans of a line changes nothing before the first quote, so a line
  whose text names a function still names it after masking.
\<close>

lemma mask_quote_head:
  "\<exists>m. stripSingleQuoted2_loop inQ (quoteChar # t) = CHR '' '' # m"
  by (cases t) (auto)

lemma mask_prefix:
  "quoteChar \<notin> set p \<Longrightarrow> stripSingleQuoted2_loop False (p @ x) = p @ stripSingleQuoted2_loop False x"
  by (induction p) auto

lemma mask_while:
  assumes "\<And>c. P c \<Longrightarrow> c \<noteq> quoteChar"
    and "\<not> P (CHR '' '') \<or> dropWhile P x = [] \<or> hd (dropWhile P x) \<noteq> quoteChar"
  shows "takeWhile P (stripSingleQuoted2_loop False x) = takeWhile P x
       \<and> dropWhile P (stripSingleQuoted2_loop False x) = stripSingleQuoted2_loop False (dropWhile P x)"
  using assms(2)
proof (induction x)
  case Nil
  show ?case by simp
next
  case (Cons c t)
  show ?case
  proof (cases "P c")
    case True
    then have "c \<noteq> quoteChar" by (rule assms(1))
    with True Cons show ?thesis by simp
  next
    case False
    show ?thesis
    proof (cases "c = quoteChar")
      case q: True
      with False Cons.prems have np: "\<not> P (CHR '' '')" by simp
      from mask_quote_head[of False t] obtain m
        where "stripSingleQuoted2_loop False (quoteChar # t) = CHR '' '' # m" by blast
      with q np False show ?thesis by simp
    next
      case nq: False
      with False show ?thesis by simp
    qed
  qed
qed

lemma isSpaceCh_not_quote: "isSpaceCh c \<Longrightarrow> c \<noteq> quoteChar"
  by (auto simp: isSpaceCh_def quoteChar_def)

lemma isIdentCh_not_quote: "isIdentCh c \<Longrightarrow> c \<noteq> quoteChar"
  by (auto simp: isIdentCh_def quoteChar_def)

lemma isIdentCh_not_blank: "\<not> isIdentCh (CHR '' '')"
  by (simp add: isIdentCh_def)

lemma isSpaceCh_not_ident: "isSpaceCh c \<Longrightarrow> \<not> isIdentCh c"
  by (auto simp: isSpaceCh_def isIdentCh_def Let_def)

lemma lowerCh_quoteChar: "lowerCh quoteChar = quoteChar"
  by (simp add: lowerCh_def quoteChar_def)

lemma function_keyword_no_quote: "quoteChar \<notin> set (map lowerCh ''@Function'')"
  by code_simp

lemma startsWithCI_Function:
  "startsWithCI ''@Function'' s \<longleftrightarrow> map lowerCh (take 9 s) = map lowerCh ''@Function''"
  by (simp add: startsWithCI_def eval_nat_numeral)

lemma keyword_prefix_no_quote:
  assumes "startsWithCI ''@Function'' s"
  shows "quoteChar \<notin> set (take 9 s)" and "9 \<le> length s"
proof -
  from assms have eq: "map lowerCh (take 9 s) = map lowerCh ''@Function''"
    by (simp only: startsWithCI_Function)
  show "quoteChar \<notin> set (take 9 s)"
  proof
    assume "quoteChar \<in> set (take 9 s)"
    then have "lowerCh quoteChar \<in> set (map lowerCh (take 9 s))" by (metis image_eqI set_map)
    with eq lowerCh_quoteChar function_keyword_no_quote show False by simp
  qed
  from eq have "length (map lowerCh (take 9 s)) = length (map lowerCh ''@Function'')" by simp
  then show "9 \<le> length s" by simp
qed

lemma fnNameRe_masked:
  assumes "fnNameRe raw = Some F"
  shows "fnNameRe (stripSingleQuoted2 raw) = Some F" and "reFunction raw"
proof -
  let ?S = "stripSingleQuoted2_loop False"
  let ?r0 = "dropWhile isSpaceCh raw"
  from assms have kw: "startsWithCI ''@Function'' ?r0"
    by (auto simp: fnNameRe_def Let_def split: if_splits)
  with assms obtain r2 r3 where sp: "spaces1 (drop 9 ?r0) = Some r2"
    and id: "identAt r2 = Some (F, r3)"
    and fin: "dropWhile isSpaceCh r3 = [] \<or> hd (dropWhile isSpaceCh r3) = CHR ''(''"
    by (auto simp: fnNameRe_def Let_def split: if_splits option.splits)
  note k = keyword_prefix_no_quote[OF kw]
  \<comment> \<open>leading white space\<close>
  from k(2) have "0 < length ?r0" by linarith
  then have r0ne: "?r0 \<noteq> []" using length_greater_0_conv by blast
  have "hd ?r0 \<noteq> quoteChar"
    using k(1) r0ne by (cases ?r0) auto
  then have m0: "dropWhile isSpaceCh (?S raw) = ?S ?r0"
    using mask_while[of isSpaceCh raw] isSpaceCh_not_quote by blast
  \<comment> \<open>the keyword\<close>
  have split0: "?r0 = take 9 ?r0 @ drop 9 ?r0" by simp
  have m1: "?S ?r0 = take 9 ?r0 @ ?S (drop 9 ?r0)"
    using mask_prefix[OF k(1), of "drop 9 ?r0"] by simp
  have len9: "length (take 9 ?r0) = 9" using k(2) by simp
  have t9: "take 9 (?S ?r0) = take 9 ?r0" and d9: "drop 9 (?S ?r0) = ?S (drop 9 ?r0)"
    using m1 len9 by (simp_all del: append_take_drop_id)
  have kw': "startsWithCI ''@Function'' (?S ?r0)"
    using kw t9 by (simp only: startsWithCI_Function)
  \<comment> \<open>white space after the keyword\<close>
  from sp obtain c t where d: "drop 9 ?r0 = c # t" and c: "isSpaceCh c" and r2: "r2 = dropWhile isSpaceCh t"
    by (cases "drop 9 ?r0") (auto split: if_splits)
  from id obtain c' u where r2c: "r2 = c' # u" and c': "isIdentStart c'"
    and F: "F = c' # takeWhile isIdentCh u" and r3: "r3 = dropWhile isIdentCh u"
    by (cases r2) (auto split: if_splits)
  have c'i: "isIdentCh c'" using c' by (auto simp: isIdentStart_def isIdentCh_def Let_def)
  have "dropWhile isSpaceCh t = c' # u" using r2 r2c by simp
  then have "hd (dropWhile isSpaceCh t) \<noteq> quoteChar"
    using isIdentCh_not_quote[OF c'i] by simp
  then have m2: "dropWhile isSpaceCh (?S t) = ?S r2"
    using mask_while[of isSpaceCh t] isSpaceCh_not_quote r2 by blast
  have Sd: "?S (c # t) = c # ?S t" using isSpaceCh_not_quote[OF c] by simp
  have sp': "spaces1 (drop 9 (?S ?r0)) = Some (?S r2)"
    using d9 d Sd c m2 by simp
  \<comment> \<open>the name\<close>
  have Sr2: "?S r2 = c' # ?S u" using r2c isIdentCh_not_quote[OF c'i] by simp
  have m3: "takeWhile isIdentCh (?S u) = takeWhile isIdentCh u"
       "dropWhile isIdentCh (?S u) = ?S r3"
    using mask_while[of isIdentCh u] isIdentCh_not_quote isIdentCh_not_blank r3 by blast+
  have id': "identAt (?S r2) = Some (F, ?S r3)"
    using Sr2 c' F m3 by simp
  \<comment> \<open>white space and the end\<close>
  obtain r4 where r4: "dropWhile isSpaceCh r3 = r4" by simp
  from fin r4 have fin4: "r4 = [] \<or> hd r4 = CHR ''(''" by simp
  then have "r4 = [] \<or> hd r4 \<noteq> quoteChar" by (auto simp: quoteChar_def)
  then have "dropWhile isSpaceCh (?S r3) = ?S (dropWhile isSpaceCh r3)"
    using mask_while[of isSpaceCh r3] isSpaceCh_not_quote unfolding r4 by blast
  then have m4: "dropWhile isSpaceCh (?S r3) = ?S r4" unfolding r4 .
  have "?S r4 = [] \<or> hd (?S r4) = CHR ''(''"
  proof (cases r4)
    case Nil
    then show ?thesis by simp
  next
    case (Cons e z)
    with fin4 have "e = CHR ''(''" by simp
    with Cons show ?thesis by (simp add: quoteChar_def)
  qed
  then have fin': "dropWhile isSpaceCh (?S r3) = [] \<or> hd (dropWhile isSpaceCh (?S r3)) = CHR ''(''"
    unfolding m4 .
  show "fnNameRe (stripSingleQuoted2 raw) = Some F"
    using m0 kw' sp' id' fin'
    by (simp add: fnNameRe_def stripSingleQuoted2_def Let_def)
  have "wordEnd (drop 9 ?r0)" using d isSpaceCh_not_ident[OF c] by (simp add: wordEnd_def)
  with kw show "reFunction raw" by (simp add: reFunction_def kwAt_def eval_nat_numeral)
qed

lemma function_line_declares:
  assumes "L < length doc" and "reFunction (doc ! L)"
    and "fnNameRe (stripSingleQuoted2 (doc ! L)) = Some F"
  shows "0 \<le> buildFuncLineMap doc ! L
     \<and> F \<in> localDeclaredByFunc (varStateAfter doc (Suc L)) (buildFuncLineMap doc ! L)
     \<and> filter (\<lambda>d. dline d = L) (provideUndeclaredVarDiagnostics doc) = []
     \<and> (\<forall>L'<length doc. buildFuncLineMap doc ! L' = buildFuncLineMap doc ! L \<longrightarrow>
          filter (\<lambda>d. dline d = L' \<and> isUndeclaredDiag F d) (provideUndeclaredVarDiagnostics doc) = [])"
proof (intro conjI allI impI)
  let ?k = "buildFuncLineMap doc ! L"
  show k: "0 \<le> ?k" using assms(1,2) by (rule buildFuncLineMap_at_function(1))
  show decl: "F \<in> localDeclaredByFunc (varStateAfter doc (Suc L)) ?k"
    using reFunction_not_blank_comment[OF assms(2)] assms(3) k
    by (simp add: varStateAfter_Suc varLineStep_def Let_def)
  show "filter (\<lambda>d. dline d = L) (provideUndeclaredVarDiagnostics doc) = []"
    unfolding provideUndeclaredVarDiagnostics_def
    by (rule no_diag_on_function_line) (simp add: assms(3))
  fix L'
  assume L': "L' < length doc" and same: "buildFuncLineMap doc ! L' = ?k"
  have "L \<le> L'"
  proof (rule ccontr)
    assume "\<not> L \<le> L'"
    then have "L' < L" by simp
    from buildFuncLineMap_at_function(2)[OF assms(1,2) this] same show False by simp
  qed
  then have "Suc L \<le> Suc L'" by simp
  from varStateAfter_mono(2)[OF this, of doc ?k] decl
  have "F \<in> localDeclaredByFunc (varStateAfter doc (Suc L')) ?k" by blast
  then have "allowedInThisLine (varStateAfter doc (Suc L')) (buildFuncLineMap doc ! L') F"
    using same k by (simp add: allowedInThisLine_def)
  then show "filter (\<lambda>d. dline d = L' \<and> isUndeclaredDiag F d) (provideUndeclaredVarDiagnostics doc) = []"
    unfolding provideUndeclaredVarDiagnostics_def by (intro no_diag_for_allowed) simp
qed

text \<open>
  Claim C7. On a \<open>@Function name\<close> declaration line, naming the function \<open>F\<close>, the
  validator adds \<open>F\<close> to the local declared-set of that function and checks no use, so
  the line gets no diagnostic; and no line of that function (a line with the function's
  index in the line map) gets an undeclared-variable diagnostic about \<open>F\<close>, whatever
  \<open>@Set F\<close> or \<open>@Get(F)\<close> it holds.
\<close>

theorem function_name_is_declared:
  assumes "L < length doc" and "fnNameRe (doc ! L) = Some F"
  shows "0 \<le> buildFuncLineMap doc ! L
     \<and> F \<in> localDeclaredByFunc (varStateAfter doc (Suc L)) (buildFuncLineMap doc ! L)
     \<and> filter (\<lambda>d. dline d = L) (provideUndeclaredVarDiagnostics doc) = []
     \<and> (\<forall>L'<length doc. buildFuncLineMap doc ! L' = buildFuncLineMap doc ! L \<longrightarrow>
          filter (\<lambda>d. dline d = L' \<and> isUndeclaredDiag F d) (provideUndeclaredVarDiagnostics doc) = [])"
  using assms(1) fnNameRe_masked(2) [OF assms(2)] fnNameRe_masked(1) [OF assms(2)]
  by (rule function_line_declares)

theorem function_name_is_declared_witness:
  "''F'' \<in> localDeclaredByFunc (varStateAfter exampleFunctionDoc (Suc 0)) 0
   \<and> filter (\<lambda>d. dline d = 1 \<and> isUndeclaredDiag ''F'' d)
        (provideUndeclaredVarDiagnostics exampleFunctionDoc) = []"
proof -
  have h1: "fnNameRe (exampleFunctionDoc ! 0) = Some ''F''" by code_simp
  have h3: "length exampleFunctionDoc = 5" by code_simp
  have h4: "buildFuncLineMap exampleFunctionDoc ! 0 = 0" by code_simp
  have h5: "buildFuncLineMap exampleFunctionDoc ! 1 = 0" by code_simp
  from function_name_is_declared [of 0 exampleFunctionDoc "''F''"] h1 h3 h4 h5
  show ?thesis by simp
qed

section \<open>The operator block reaches every operator position\<close>

text \<open>The characters that a jump of the index passes are no operator positions.\<close>

lemma noOperator_trans [trans]:
  "noOperator l a b \<Longrightarrow> noOperator l b c \<Longrightarrow> noOperator l a c"
  unfolding noOperator_def by (metis not_le_imp_less)

lemma noOperator_empty: "b \<le> a \<Longrightarrow> noOperator l a b"
  unfolding noOperator_def by auto

lemma noOperator_plain:
  "(\<And>q. a \<le> q \<Longrightarrow> q < b \<Longrightarrow> q < length l \<Longrightarrow> plainCh (l ! q)) \<Longrightarrow> noOperator l a b"
  unfolding noOperator_def isOperatorPos_def plainCh_def by blast

lemma skipWhileFrom_all:
  assumes "j \<le> q" "q < skipWhileFrom P l j"
  shows "q < length l \<and> P (l ! q)"
proof -
  let ?t = "takeWhile P (drop j l)"
  from assms have k: "q - j < length ?t" by (simp add: skipWhileFrom_def)
  then have "?t ! (q - j) \<in> set ?t" by (rule nth_mem)
  then have P: "P (?t ! (q - j))" by (rule set_takeWhileD[THEN conjunct2])
  have le: "length ?t \<le> length (drop j l)" by (rule length_takeWhile_le)
  with k have "q - j < length l - j" by simp
  with assms(1) have q: "q < length l" by simp
  have "?t ! (q - j) = drop j l ! (q - j)" using k by (rule takeWhile_nth)
  also have "\<dots> = l ! q" using assms(1) q by simp
  finally show ?thesis using P q by simp
qed

lemma noOperator_skipWhile:
  "(\<And>c. P c \<Longrightarrow> plainCh c) \<Longrightarrow> noOperator l j (skipWhileFrom P l j)"
  by (rule noOperator_plain) (use skipWhileFrom_all in blast)

lemma isSpaceCh_plain: "isSpaceCh c \<Longrightarrow> plainCh c"
  by (auto simp: isSpaceCh_def plainCh_def)

lemma isIdentCh_plain: "isIdentCh c \<Longrightarrow> plainCh c"
  by (auto simp: isIdentCh_def plainCh_def)

lemma isIdentStart_plain: "isIdentStart c \<Longrightarrow> plainCh c"
  by (auto simp: isIdentStart_def plainCh_def)

lemma noOperator_skipSpaces: "noOperator l j (skipSpacesFrom l j)"
  unfolding skipSpacesFrom_def by (rule noOperator_skipWhile) (rule isSpaceCh_plain)

lemma charAt_Some: "charAt l j = Some c \<Longrightarrow> j < length l \<and> l ! j = c"
  by (auto simp: charAt_def split: if_splits)

lemma noOperator_single: "charAt l j = Some c \<Longrightarrow> plainCh c \<Longrightarrow> noOperator l j (Suc j)"
  by (rule noOperator_plain) (auto dest!: charAt_Some simp: le_less_Suc_eq)

lemma noOperator_skipAt: "noOperator l j (skipAt l j)"
proof (cases "charAt l j = Some (CHR ''@'')")
  case True
  then have "noOperator l j (Suc j)" by (rule noOperator_single) (simp add: plainCh_def)
  with True show ?thesis by (simp add: skipAt_def)
next
  case False
  then show ?thesis by (simp add: skipAt_def noOperator_empty)
qed

lemma startsWithAt_nth:
  assumes "startsWithAt pat l i" "k < length pat"
  shows "i + k < length l \<and> l ! (i + k) = pat ! k"
proof -
  from assms(1) have eq: "take (length pat) (drop i l) = pat" by (simp add: startsWithAt_def)
  then have "length (take (length pat) (drop i l)) = length pat" by simp
  then have len: "length pat \<le> length l - i" by simp
  with assms(2) have lt: "i + k < length l" by simp
  from eq have "take (length pat) (drop i l) ! k = pat ! k" by simp
  with assms(2) lt show ?thesis by simp
qed

lemma noOperator_startsWith:
  assumes "startsWithAt pat l i" "list_all plainCh pat"
  shows "noOperator l i (i + length pat)"
proof (rule noOperator_plain)
  fix q assume q: "i \<le> q" "q < i + length pat"
  then have k: "q - i < length pat" by simp
  from startsWithAt_nth[OF assms(1) k] q(1) have "l ! q = pat ! (q - i)" by simp
  moreover from assms(2) k have "plainCh (pat ! (q - i))" by (simp add: list_all_length)
  ultimately show "plainCh (l ! q)" by simp
qed


lemma noOperator_mono: "noOperator l a b \<Longrightarrow> a \<le> a' \<Longrightarrow> b' \<le> b \<Longrightarrow> noOperator l a' b'"
  unfolding noOperator_def by auto

lemma plainCh_paren: "plainCh (CHR ''('')"
  by (simp add: plainCh_def)

lemma noOperator_paren: "charAt l j = Some (CHR ''('') \<Longrightarrow> noOperator l j (Suc j)"
  by (erule noOperator_single) (rule plainCh_paren)

lemma noOperator_skipIfWord: "noOperator l j (skipIfWord l isIf j)"
proof (cases "\<not> isIf \<and> startsWithAt ''If'' l j")
  case True
  then have "noOperator l j (j + length ''If'')"
    by (intro noOperator_startsWith) (simp_all add: plainCh_def)
  with True show ?thesis by (simp add: skipIfWord_def)
next
  case False
  then show ?thesis by (auto simp: skipIfWord_def noOperator_empty)
qed

lemma ifParenIndex_noOperator:
  assumes "ifParenIndex l i isIf = Some j"
    and "if isIf then startsWithAt ''@If'' l i else startsWithAt ''@Else'' l i"
  shows "noOperator l i (Suc j)"
proof -
  let ?j = "if isIf then i + 3 else i + 5"
  let ?j1 = "skipSpacesFrom l ?j"
  let ?j2 = "skipIfWord l isIf ?j1"
  let ?j3 = "skipSpacesFrom l ?j2"
  let ?j4 = "skipAt l ?j3"
  let ?j5 = "skipSpacesFrom l ?j4"
  from assms(1) have j: "j = ?j5" and paren: "charAt l ?j5 = Some (CHR ''('')"
    unfolding ifParenIndex_def Let_def by (metis option.inject option.distinct(1))+
  have "noOperator l i ?j"
  proof (cases isIf)
    case True
    with assms(2) have "noOperator l i (i + length ''@If'')"
      by (intro noOperator_startsWith) (simp_all add: plainCh_def)
    with True show ?thesis by (simp add: eval_nat_numeral)
  next
    case False
    with assms(2) have "noOperator l i (i + length ''@Else'')"
      by (intro noOperator_startsWith) (simp_all add: plainCh_def)
    with False show ?thesis by (simp add: eval_nat_numeral)
  qed
  also have "noOperator l ?j ?j1" by (rule noOperator_skipSpaces)
  also have "noOperator l ?j1 ?j2" by (rule noOperator_skipIfWord)
  also have "noOperator l ?j2 ?j3" by (rule noOperator_skipSpaces)
  also have "noOperator l ?j3 ?j4" by (rule noOperator_skipAt)
  also have "noOperator l ?j4 ?j5" by (rule noOperator_skipSpaces)
  also have "noOperator l ?j5 (Suc ?j5)" using paren by (rule noOperator_paren)
  finally show ?thesis using j by simp
qed


lemma not_operator_after_comparison:
  assumes "startsWithAt [c, d] l i" and "c = CHR ''>'' \<or> c = CHR ''<''"
    and "d = CHR ''='' \<or> d = CHR ''>''"
  shows "noOperator l (Suc i) (Suc (Suc i))"
proof -
  from startsWithAt_nth[OF assms(1), of 0] startsWithAt_nth[OF assms(1), of 1]
  have c: "i < length l" "l ! i = c" and d: "Suc i < length l" "l ! Suc i = d" by simp_all
  have "prevChar l (Suc i) = Some c" using c by (simp add: prevChar_def charAt_def)
  with d assms(2,3) have "\<not> isOperatorPos l (Suc i)" by (auto simp: isOperatorPos_def)
  then show ?thesis by (auto simp: noOperator_def le_less_Suc_eq)
qed

lemma logicAt_noOperator:
  assumes "logicAt line l i = Some (t, j)"
  shows "noOperator l (Suc i) (Suc j)"
proof (cases "startsWithAt ''And'' l i \<and> isWordBoundary l i 3")
  case True
  with assms have j: "j = i + 2" by (simp add: logicAt_def)
  from True have "noOperator l i (i + length ''And'')"
    by (intro noOperator_startsWith) (simp_all add: plainCh_def)
  from noOperator_mono[OF this, of "Suc i" "Suc j"] j show ?thesis by simp
next
  case nA: False
  show ?thesis
  proof (cases "startsWithAt ''Or'' l i \<and> isWordBoundary l i 2")
    case True
    with assms nA have j: "j = i + 1" by (simp add: logicAt_def)
    from True have "noOperator l i (i + length ''Or'')"
      by (intro noOperator_startsWith) (simp_all add: plainCh_def)
    from noOperator_mono[OF this, of "Suc i" "Suc j"] j show ?thesis by simp
  next
    case nO: False
    show ?thesis
    proof (cases "startsWithAt ''>='' l i \<or> startsWithAt ''<='' l i \<or> startsWithAt ''<>'' l i")
      case True
      with assms nA nO have j: "j = i + 1" by (simp add: logicAt_def)
      from True have "noOperator l (Suc i) (Suc (Suc i))"
        using not_operator_after_comparison[of "CHR ''>''" "CHR ''=''" l i]
          not_operator_after_comparison[of "CHR ''<''" "CHR ''=''" l i]
          not_operator_after_comparison[of "CHR ''<''" "CHR ''>''" l i]
        by blast
      with j show ?thesis by simp
    next
      case False
      with assms nA nO have "j = i" by (simp add: logicAt_def split: if_splits)
      then show ?thesis by (simp add: noOperator_empty)
    qed
  qed
qed

lemma mapNameAt_noOperator:
  assumes "mapNameAt l i = Some k"
  shows "noOperator l i k"
proof -
  from assms have m: "startsWithAt ''@Map.'' l i" by (auto simp: mapNameAt_def split: if_splits)
  then have a: "noOperator l i (i + 5)"
    using noOperator_startsWith[of "''@Map.''" l i] by (simp add: plainCh_def eval_nat_numeral)
  have "\<exists>e. k = skipAt l e \<and> noOperator l (i + 5) e"
  proof (cases "startsWithAt ''Get'' l (i + 5)")
    case True
    with assms m have "k = skipAt l (i + 8)" by (simp add: mapNameAt_def skipAt_def)
    moreover from True have "noOperator l (i + 5) (i + 8)"
      using noOperator_startsWith[of "''Get''" l "i + 5"] by (simp add: plainCh_def eval_nat_numeral)
    ultimately show ?thesis by blast
  next
    case nG: False
    show ?thesis
    proof (cases "startsWithAt ''Set'' l (i + 5)")
      case True
      with assms m nG have "k = skipAt l (i + 8)" by (simp add: mapNameAt_def skipAt_def)
      moreover from True have "noOperator l (i + 5) (i + 8)"
        using noOperator_startsWith[of "''Set''" l "i + 5"] by (simp add: plainCh_def eval_nat_numeral)
      ultimately show ?thesis by blast
    next
      case nS: False
      show ?thesis
      proof (cases "startsWithAt ''Clear'' l (i + 5)")
        case True
        with assms m nG nS have "k = skipAt l (i + 10)" by (simp add: mapNameAt_def skipAt_def)
        moreover from True have "noOperator l (i + 5) (i + 10)"
          using noOperator_startsWith[of "''Clear''" l "i + 5"] by (simp add: plainCh_def eval_nat_numeral)
        ultimately show ?thesis by blast
      next
        case False
        with assms m nG nS show ?thesis by (simp add: mapNameAt_def)
      qed
    qed
  qed
  then obtain e where e: "k = skipAt l e" and b: "noOperator l (i + 5) e" by blast
  note a
  also note b
  also have "noOperator l e (skipAt l e)" by (rule noOperator_skipAt)
  finally show ?thesis using e by simp
qed

lemma mapCallAt_noOperator:
  assumes "mapCallAt line l i = Some (t, j)"
  shows "noOperator l i (Suc j)"
proof -
  from assms obtain k where k: "mapNameAt l i = Some k"
    by (auto simp: mapCallAt_def split: option.splits)
  let ?j = "skipSpacesFrom l k"
  let ?j1 = "skipAt l ?j"
  from assms k have j: "j = ?j1" and paren: "charAt l ?j1 = Some (CHR ''('')"
    by (auto simp: mapCallAt_def Let_def split: if_splits)
  have "noOperator l i k" using k by (rule mapNameAt_noOperator)
  also have "noOperator l k ?j" by (rule noOperator_skipSpaces)
  also have "noOperator l ?j ?j1" by (rule noOperator_skipAt)
  also have "noOperator l ?j1 (Suc ?j1)" using paren by (rule noOperator_paren)
  finally show ?thesis using j by simp
qed

lemma identAt_length:
  assumes "identAt s = Some (name, rest)"
  shows "length name = length (takeWhile isIdentCh s)"
proof (cases s)
  case Nil
  with assms show ?thesis by simp
next
  case (Cons c r)
  with assms have c: "isIdentStart c" and n: "name = c # takeWhile isIdentCh r"
    by (auto split: if_splits)
  from c have "isIdentCh c" by (auto simp: isIdentStart_def isIdentCh_def Let_def)
  with n Cons show ?thesis by simp
qed

lemma getCallParenIndex_noOperator:
  assumes "getCallParenIndex l i n = Some j"
  shows "noOperator l (i + 1 + n) (Suc j)"
proof -
  let ?j1 = "skipAt l (i + 1 + n)"
  let ?j2 = "skipSpacesFrom l ?j1"
  from assms have j: "j = ?j2" and paren: "charAt l ?j2 = Some (CHR ''('')"
    by (auto simp: getCallParenIndex_def Let_def split: if_splits)
  have "noOperator l (i + 1 + n) ?j1" by (rule noOperator_skipAt)
  also have "noOperator l ?j1 ?j2" by (rule noOperator_skipSpaces)
  also have "noOperator l ?j2 (Suc ?j2)" using paren by (rule noOperator_paren)
  finally show ?thesis using j by simp
qed

lemma callAt_noOperator:
  assumes "callAt line l i = Some (t, fr, j)"
  shows "noOperator l (Suc i) (Suc j)"
proof -
  from assms obtain name rest where id: "identAt (drop (i + 1) l) = Some (name, rest)"
    and p: "getCallParenIndex l i (length name) = Some j"
    by (auto simp: callAt_def Let_def split: if_splits option.splits)
  have "i + 1 + length name = skipWhileFrom isIdentCh l (i + 1)"
    using identAt_length[OF id] by (simp add: skipWhileFrom_def)
  with noOperator_skipWhile[of isIdentCh l "i + 1"] isIdentCh_plain
  have "noOperator l (i + 1) (i + 1 + length name)" by simp
  also have "noOperator l (i + 1 + length name) (Suc j)"
    using p by (rule getCallParenIndex_noOperator)
  finally show ?thesis by simp
qed

lemma callBlocks_noOperator:
  "noOperator l (Suc i) (Suc (snd (callBlocks line l i st)))"
proof (cases "mapCallAt line l i")
  case (Some a)
  obtain t j where a: "a = (t, j)" by (cases a)
  from mapCallAt_noOperator[of line l i t j] Some a
  have "noOperator l (Suc i) (Suc j)" by (auto intro: noOperator_mono)
  with Some a show ?thesis by (simp add: callBlocks_def)
next
  case None
  show ?thesis
  proof (cases "callAt line l i")
    case (Some a)
    obtain t fr j where a: "a = (t, fr, j)" by (cases a)
    from callAt_noOperator[of line l i t fr j] Some a
    show ?thesis using None by (simp add: callBlocks_def)
  next
    case n: None
    with None show ?thesis by (simp add: callBlocks_def Let_def noOperator_empty)
  qed
qed

lemma logicBlock_noOperator:
  "noOperator l (Suc i) (Suc (snd (logicBlock line l i st)))"
proof (cases "if ifMode st \<or> 0 < ifParenDepth st then logicAt line l i else None")
  case None
  then show ?thesis by (simp add: logicBlock_def callBlocks_noOperator)
next
  case (Some a)
  obtain t j where a: "a = (t, j)" by (cases a)
  with Some have "logicAt line l i = Some (t, j)" by (simp split: if_splits)
  from logicAt_noOperator[OF this] Some a show ?thesis by (simp add: logicBlock_def)
qed

lemma ifModeBlocks_noOperator:
  "noOperator l (Suc i) (Suc (snd (ifModeBlocks line l i st)))"
proof -
  let ?isIf = "startsWithAt ''@If'' l i \<and> isWordBoundary l i 3"
  let ?isElseIf = "startsWithAt ''@Else'' l i \<and> isWordBoundary l i 5 \<and> elseIfFollows l i"
  show ?thesis
  proof (cases "?isIf \<or> ?isElseIf")
    case True
    show ?thesis
    proof (cases "ifParenIndex l i ?isIf")
      case None
      with True show ?thesis by (simp add: ifModeBlocks_def Let_def noOperator_empty)
    next
      case (Some j)
      have "if ?isIf then startsWithAt ''@If'' l i else startsWithAt ''@Else'' l i"
        using True by auto
      from ifParenIndex_noOperator[OF Some this] have "noOperator l (Suc i) (Suc j)"
        by (rule noOperator_mono) simp_all
      with True Some show ?thesis by (simp add: ifModeBlocks_def Let_def)
    qed
  next
    case False
    then show ?thesis
      by (auto simp: ifModeBlocks_def Let_def noOperator_empty logicBlock_noOperator)
  qed
qed

lemma scanStep_noOperator:
  "noOperator l (Suc i) (Suc (snd (scanStep line l i st)))"
  unfolding scanStep_def Let_def inSingleQuote_def
  by (auto simp: noOperator_empty ifModeBlocks_noOperator)


lemma trackDepth_tokens: "tokens (trackDepth ch st) = tokens st"
  by (simp add: trackDepth_def Let_def)

lemma callBlocks_tokens_mono: "set (tokens st) \<subseteq> set (tokens (fst (callBlocks line l i st)))"
  by (auto simp: callBlocks_def Let_def push_def trackDepth_tokens split: option.splits)

lemma logicBlock_tokens_mono: "set (tokens st) \<subseteq> set (tokens (fst (logicBlock line l i st)))"
proof (cases "if ifMode st \<or> 0 < ifParenDepth st then logicAt line l i else None")
  case None
  then show ?thesis by (simp add: logicBlock_def callBlocks_tokens_mono)
next
  case (Some a)
  then show ?thesis by (cases a) (auto simp: logicBlock_def push_def)
qed

lemma ifModeBlocks_tokens_mono: "set (tokens st) \<subseteq> set (tokens (fst (ifModeBlocks line l i st)))"
  using logicBlock_tokens_mono[of st line l i]
  by (auto simp: ifModeBlocks_def Let_def split: option.splits)

lemma scanStep_tokens_mono: "set (tokens st) \<subseteq> set (tokens (fst (scanStep line l i st)))"
proof -
  have "set (tokens st) \<subseteq> set (tokens (fst (ifModeBlocks line l i
          (st\<lparr>tokens := tokens st @ functionTokens line l i @ operatorTokens line l i\<rparr>))))"
    using ifModeBlocks_tokens_mono[of "st\<lparr>tokens := tokens st @ functionTokens line l i @ operatorTokens line l i\<rparr>" line l i]
    by auto
  then show ?thesis
    unfolding scanStep_def Let_def inSingleQuote_def
    by (auto simp: push_def)
qed

lemma scanLine_tokens_mono: "set (tokens st) \<subseteq> set (tokens (scanLine line l i st))"
proof (induction line l i st rule: scanLine.induct)
  case (1 line l i st)
  show ?case
  proof (cases "i < length l")
    case False
    then show ?thesis by (subst scanLine.simps) simp
  next
    case True
    obtain st' i' where step: "scanStep line l i st = (st', i')" by (cases "scanStep line l i st")
    from 1[OF True step[symmetric]]
    have "set (tokens st') \<subseteq> set (tokens (scanLine line l (Suc i') st'))" .
    moreover have "set (tokens st) \<subseteq> set (tokens st')"
      using scanStep_tokens_mono[of st line l i] step by simp
    ultimately show ?thesis using True step by (subst scanLine.simps) auto
  qed
qed

lemma operatorTokens_at:
  "isOperatorPos l i \<Longrightarrow> operatorTokens line l i = [mkToken line i 1 ablLogic]"
  by (auto simp: operatorTokens_def isOperatorPos_def Let_def)

lemma scanStep_emits:
  assumes "isOperatorPos l i"
  shows "mkToken line i 1 ablLogic \<in> set (tokens (fst (scanStep line l i st)))"
proof -
  from assms have ch: "l ! i \<noteq> CHR ''^''" by (auto simp: isOperatorPos_def)
  let ?st2 = "st\<lparr>tokens := tokens st @ functionTokens line l i @ operatorTokens line l i\<rparr>"
  have "mkToken line i 1 ablLogic \<in> set (tokens ?st2)"
    using operatorTokens_at[OF assms] by simp
  with ifModeBlocks_tokens_mono[of ?st2 line l i]
  have "mkToken line i 1 ablLogic \<in> set (tokens (fst (ifModeBlocks line l i ?st2)))" by blast
  then show ?thesis using ch by (simp add: scanStep_def Let_def inSingleQuote_def)
qed

lemma scanLine_emits:
  "isOperatorPos l p \<Longrightarrow> i \<le> p \<Longrightarrow> mkToken line p 1 ablLogic \<in> set (tokens (scanLine line l i st))"
proof (induction line l i st rule: scanLine.induct)
  case (1 line l i st)
  from 1(2,3) have lt: "i < length l" by (simp add: isOperatorPos_def)
  obtain st' i' where step: "scanStep line l i st = (st', i')" by (cases "scanStep line l i st")
  have unf: "scanLine line l i st = scanLine line l (Suc i') st'"
    using lt step by (subst scanLine.simps) simp
  show ?case
  proof (cases "i = p")
    case True
    with scanStep_emits[OF 1(2), of line st] step
    have "mkToken line p 1 ablLogic \<in> set (tokens st')" by simp
    with scanLine_tokens_mono[of st' line l "Suc i'"] show ?thesis unfolding unf by blast
  next
    case False
    with 1(3) have ip: "Suc i \<le> p" by simp
    have "Suc i' \<le> p"
    proof (rule ccontr)
      assume "\<not> Suc i' \<le> p"
      then have "p < Suc i'" by simp
      with scanStep_noOperator[of l i line st] step ip have "\<not> isOperatorPos l p"
        by (simp add: noOperator_def)
      with 1(2) show False by simp
    qed
    from 1(1)[OF lt step[symmetric] 1(2) this] show ?thesis unfolding unf .
  qed
qed

text \<open>
  Claim C10. On every line of a document, the classifier emits a 1-character LogicOperator
  span for every \<open>+\<close>, and for every \<open>=\<close> that is not next to \<open>>\<close>, \<open><\<close>, \<open>!\<close> or
  another \<open>=\<close> (here: not preceded by one of them and not followed by \<open>=\<close>), whether or
  not the line holds an \<open>@If\<close> / \<open>@Else If\<close> condition; so the \<open>=\<close> of
  \<open>@Data(3) = d\<close> gets one. No condition on quotes, on \<open>^Data\<close> / \<open>^Class\<close> or on the
  jumps of the index is needed: the quote flag of the loop is never set, the first \<open>^\<close>
  block does not move the index, and no jump passes such a character.
\<close>

theorem operator_spans_emitted:
  assumes "line < length doc" and "isOperatorPos (doc ! line) i"
  shows "mkToken line i 1 ablLogic \<in> set (provideTokens doc)"
proof -
  have "mkToken line i 1 ablLogic \<in> set (lineTokens line (currentFuncNameOf doc line) (doc ! line))"
    unfolding lineTokens_def using assms(2) by (intro scanLine_emits) simp_all
  with assms(1) show ?thesis by (auto simp: provideTokens_def)
qed

theorem operator_spans_emitted_witness:
  "mkToken 0 9 1 ablLogic \<in> set (provideTokens [''@Data(3) = d''])"
proof -
  have h: "isOperatorPos ([''@Data(3) = d''] ! 0) 9" by code_simp
  from operator_spans_emitted [of 0 "[''@Data(3) = d'']" 9, OF _ h] show ?thesis by simp
qed


section \<open>The classifier on concrete lines\<close>

text \<open>
  Claim C4. On the line \<open>@Map.Get@(Key@)\<close> the classifier emits exactly two spans: one
  MapCall span over the nine characters \<open>@Map.Get@\<close>, and one 1-character MapCall span at
  the \<open>@\<close> after \<open>Key\<close> (it follows an identifier character and precedes \<open>)\<close> while
  the Map frame is on the stack, so it takes the category of that frame).
\<close>

theorem map_call_spans:
  "provideTokens [''@Map.Get@(Key@)''] = [mkToken 0 0 9 ablMap, mkToken 0 13 1 ablMap]"
  by code_simp

text \<open>
  Claim C6, evaluated. On the document \<open>@If a = b @Then\<close> / \<open>statement\<close> / \<open>@End If\<close> the
  validators produce no diagnostic; the classifier pushes two equal LogicOperator spans at
  the \<open>=\<close> of the first line, one in the operator block and one more in the logic block,
  where the claim has exactly one.
\<close>

theorem if_document_spans:
  "provideIfDiagnostics [''@If a = b @Then'', ''statement'', ''@End If''] = []
   \<and> provideUndeclaredVarDiagnostics [''@If a = b @Then'', ''statement'', ''@End If''] = []
   \<and> provideTokens [''@If a = b @Then'', ''statement'', ''@End If'']
       = [mkToken 0 6 1 ablLogic, mkToken 0 6 1 ablLogic]"
  by code_simp

text \<open>
  Claim C2, evaluated. Two spans of one line overlap: on \<open>@If x = 1 @Then\<close> the operator
  block and the logic block both push the span of the \<open>=\<close>, and on \<open>@Function F\<close> the span
  of the name is pushed at the \<open>F\<close> of the keyword, inside the span of \<open>@Function\<close>.
\<close>

theorem overlapping_spans:
  "provideTokens [''@If x = 1 @Then''] = [mkToken 0 6 1 ablLogic, mkToken 0 6 1 ablLogic]
   \<and> spansOverlap (mkToken 0 6 1 ablLogic) (mkToken 0 6 1 ablLogic)
   \<and> provideTokens [''@Function F''] = [mkToken 0 0 9 ablFunctionDecl, mkToken 0 1 1 ablReturn]
   \<and> spansOverlap (mkToken 0 0 9 ablFunctionDecl) (mkToken 0 1 1 ablReturn)"
  by code_simp

section \<open>The comparison splitter finds the leftmost top-level operator\<close>

lemma scanLabels_length: "length (scanLabels d q r) = length r"
  by (induction d q r rule: scanLabels.induct) (auto split: list.splits)

lemma loop_firstOp:
  "splitCompareTopLevel_loop i depth inQ rest = firstOp i (scanLabels depth inQ rest) rest"
proof (induction depth inQ rest arbitrary: i rule: scanLabels.induct)
  case (1 depth inQ)
  show ?case by simp
next
  case (2 depth inQ c r)
  show ?case
  proof (cases "c = quoteChar")
    case True
    show ?thesis
    proof (cases r)
      case Nil
      with True show ?thesis by simp
    next
      case (Cons nxt r')
      show ?thesis
      proof (cases "nxt = quoteChar")
        case q: True
        from 2(1)[OF True Cons q] True Cons q show ?thesis by (cases inQ) simp_all
      next
        case q: False
        from 2(2)[OF True Cons q] True Cons q show ?thesis by (cases inQ) simp_all
      qed
    qed
  next
    case nq: False
    show ?thesis
    proof (cases inQ)
      case True
      from 2(3)[OF nq True] nq True show ?thesis by simp
    next
      case niq: False
      show ?thesis
      proof (cases "c = CHR ''(''")
        case True
        from 2(4)[OF nq niq True] nq niq True show ?thesis by simp
      next
        case nl: False
        show ?thesis
        proof (cases "c = CHR '')''")
          case True
          from 2(5)[OF nq niq nl True] nq niq nl True show ?thesis by (cases depth) simp_all
        next
          case nr: False
          from 2(6)[OF nq niq nl nr] nq niq nl nr show ?thesis
            by (auto split: option.splits)
        qed
      qed
    qed
  qed
qed

lemma firstOp_None:
  "length bs = length r \<Longrightarrow>
   (firstOp i bs r = None) = (\<forall>k<length r. bs ! k \<longrightarrow> opAtHead (drop k r) = None)"
proof (induction i bs r rule: firstOp.induct)
  case (1 i b bs c r)
  have split: "(\<forall>k<length (c # r). (b # bs) ! k \<longrightarrow> opAtHead (drop k (c # r)) = None)
      = ((b \<longrightarrow> opAtHead (c # r) = None) \<and> (\<forall>k<length r. bs ! k \<longrightarrow> opAtHead (drop k r) = None))"
    by (auto simp: less_Suc_eq_0_disj)
  from 1(3) have len: "length bs = length r" by simp
  show ?case
  proof (cases "b \<and> opAtHead (c # r) \<noteq> None")
    case True
    then show ?thesis unfolding split by auto
  next
    case False
    have IH: "(firstOp (i + 1) bs r = None) =
      (\<forall>k<length r. bs ! k \<longrightarrow> opAtHead (drop k r) = None)"
    proof (cases b)
      case True
      with False have "opAtHead (c # r) = None" by simp
      from 1(1)[OF True this len] show ?thesis .
    next
      case False
      from 1(2)[OF False len] show ?thesis .
    qed
    show ?thesis unfolding split using IH False by (auto split: option.splits)
  qed
qed simp_all

lemma firstOp_Some:
  "length bs = length r \<Longrightarrow> firstOp i bs r = Some (j, op) \<Longrightarrow>
   (\<exists>k<length r. j = i + k \<and> bs ! k \<and> opAtHead (drop k r) = Some op
      \<and> (\<forall>k'<k. bs ! k' \<longrightarrow> opAtHead (drop k' r) = None))"
proof (induction i bs r rule: firstOp.induct)
  case (1 i b bs c r)
  show ?case
  proof (cases "b \<and> opAtHead (c # r) \<noteq> None")
    case True
    with 1(4) have "j = i" "opAtHead (c # r) = Some op" by (auto split: option.splits)
    with True show ?thesis by (intro exI[of _ 0]) auto
  next
    case False
    with 1(4) have rec: "firstOp (i + 1) bs r = Some (j, op)"
      by (auto split: option.splits if_splits)
    from 1(3) have len: "length bs = length r" by simp
    have "\<exists>k<length r. j = i + 1 + k \<and> bs ! k \<and> opAtHead (drop k r) = Some op
      \<and> (\<forall>k'<k. bs ! k' \<longrightarrow> opAtHead (drop k' r) = None)"
    proof (cases b)
      case True
      with False have "opAtHead (c # r) = None" by simp
      from 1(1)[OF True this len rec] show ?thesis .
    next
      case False
      from 1(2)[OF False len rec] show ?thesis .
    qed
    then obtain k where k: "k < length r" "j = i + 1 + k" "bs ! k" "opAtHead (drop k r) = Some op"
      "\<forall>k'<k. bs ! k' \<longrightarrow> opAtHead (drop k' r) = None"
      by blast
    have "\<forall>k'<Suc k. (b # bs) ! k' \<longrightarrow> opAtHead (drop k' (c # r)) = None"
      using k(5) False by (auto simp: less_Suc_eq_0_disj)
    with k show ?thesis by (intro exI[of _ "Suc k"]) simp
  qed
qed simp_all

lemma opAtHead_None_iff: "opAtHead (drop i expr) = None \<longleftrightarrow> \<not> operatorAt expr i"
  by (simp add: opAtHead_def compareOps_def operatorAt_def occursAt_def)

lemma opAtHead_priorityOperator: "opAtHead (drop i expr) = priorityOperator expr i"
  by (simp add: opAtHead_def compareOps_def occursAt_def priorityOperator_def)

lemma priorityOperator_occurs: "priorityOperator expr i = Some op \<Longrightarrow> occursAt op expr i"
  by (auto simp: priorityOperator_def split: if_splits)

text \<open>
  Claim C8. For every string \<open>expr\<close>, \<open>splitCompareTopLevel\<close> returns none exactly when none
  of \<open><>\<close>, \<open>>=\<close>, \<open><=\<close>, \<open>=\<close>, \<open>>\<close>, \<open><\<close> occurs at a position of \<open>expr\<close> outside single
  quotes and outside parentheses; otherwise it returns \<open>(left, op, right)\<close> with
  \<open>left @ op @ right = expr\<close>, where the end of \<open>left\<close> is the leftmost such position and
  \<open>op\<close> is the first operator in the order \<open><>\<close>, \<open>>=\<close>, \<open><=\<close>, \<open>=\<close>, \<open>>\<close>, \<open><\<close> that occurs
  there.
\<close>

theorem splitCompareTopLevel_spec:
  "(splitCompareTopLevel expr = None
      \<longleftrightarrow> (\<forall>i. topLevelAt expr i \<longrightarrow> \<not> operatorAt expr i))
   \<and> (\<forall>left op right. splitCompareTopLevel expr = Some (left, op, right) \<longrightarrow>
        left @ op @ right = expr
        \<and> topLevelAt expr (length left)
        \<and> operatorAt expr (length left)
        \<and> priorityOperator expr (length left) = Some op
        \<and> (\<forall>j<length left. topLevelAt expr j \<longrightarrow> \<not> operatorAt expr j))"
proof (intro conjI allI impI)
  have len: "length (scanLabels 0 False expr) = length expr" by (rule scanLabels_length)
  show "splitCompareTopLevel expr = None
      \<longleftrightarrow> (\<forall>i. topLevelAt expr i \<longrightarrow> \<not> operatorAt expr i)"
    using firstOp_None[OF len, of 0]
    by (auto simp: splitCompareTopLevel_def loop_firstOp topLevelAt_def opAtHead_None_iff
        split: option.splits)
next
  fix left op right
  assume res: "splitCompareTopLevel expr = Some (left, op, right)"
  have len: "length (scanLabels 0 False expr) = length expr" by (rule scanLabels_length)
  from res obtain i where i: "firstOp 0 (scanLabels 0 False expr) expr = Some (i, op)"
    and left: "left = take i expr" and right: "right = drop (i + length op) expr"
    by (auto simp: splitCompareTopLevel_def loop_firstOp split: option.splits)
  from firstOp_Some[OF len i]
  have k: "i < length expr" "scanLabels 0 False expr ! i" "opAtHead (drop i expr) = Some op"
    "\<forall>k'<i. scanLabels 0 False expr ! k' \<longrightarrow> opAtHead (drop k' expr) = None"
    by auto
  from k(1) left have ll: "length left = i" by simp
  from k(3) have pri: "priorityOperator expr i = Some op" by (simp add: opAtHead_priorityOperator)
  from priorityOperator_occurs[OF pri] have pre: "take (length op) (drop i expr) = op"
    by (simp add: occursAt_def)
  have "left @ op @ right
      = take i expr @ (take (length op) (drop i expr) @ drop (length op) (drop i expr))"
    using pre left right by (simp add: add.commute)
  also have "\<dots> = expr" by (simp only: append_take_drop_id)
  finally show "left @ op @ right = expr" .
  show "topLevelAt expr (length left)" using k(1,2) ll by (simp add: topLevelAt_def)
  show "operatorAt expr (length left)" using k(3) opAtHead_None_iff[of "length left" expr] ll by simp
  show "priorityOperator expr (length left) = Some op" using pri ll by simp
  fix j assume "j < length left" "topLevelAt expr j"
  then show "\<not> operatorAt expr j" using k(4) ll opAtHead_None_iff[of j expr]
    by (simp add: topLevelAt_def)
qed

theorem splitCompareTopLevel_spec_witness:
  "splitCompareTopLevel ''(a=1) <> b'' = Some (''(a=1) '', ''<>'', '' b'')
   \<and> ''(a=1) '' @ ''<>'' @ '' b'' = ''(a=1) <> b''
   \<and> topLevelAt ''(a=1) <> b'' (length ''(a=1) '')
   \<and> operatorAt ''(a=1) <> b'' (length ''(a=1) '')
   \<and> priorityOperator ''(a=1) <> b'' (length ''(a=1) '') = Some ''<>''
   \<and> splitCompareTopLevel ''a>=b'' = Some (''a'', ''>='', ''b'')
   \<and> splitCompareTopLevel ''a<=b'' = Some (''a'', ''<='', ''b'')
   \<and> splitCompareTopLevel ''a=b'' = Some (''a'', ''='', ''b'')
   \<and> splitCompareTopLevel ''a>b'' = Some (''a'', ''>'', ''b'')
   \<and> splitCompareTopLevel ''a<b'' = Some (''a'', ''<'', ''b'')
   \<and> splitCompareTopLevel ''a=>b'' = Some (''a'', ''='', ''>b'')
   \<and> splitCompareTopLevel ''(a=b)'' = None
   \<and> splitCompareTopLevel (quoteChar # ''a=b'' @ [quoteChar]) = None"
proof -
  have e: "splitCompareTopLevel ''(a=1) <> b'' = Some (''(a=1) '', ''<>'', '' b'')"
    by code_simp
  have others: "splitCompareTopLevel ''a>=b'' = Some (''a'', ''>='', ''b'')"
    "splitCompareTopLevel ''a<=b'' = Some (''a'', ''<='', ''b'')"
    "splitCompareTopLevel ''a=b'' = Some (''a'', ''='', ''b'')"
    "splitCompareTopLevel ''a>b'' = Some (''a'', ''>'', ''b'')"
    "splitCompareTopLevel ''a<b'' = Some (''a'', ''<'', ''b'')"
    "splitCompareTopLevel ''a=>b'' = Some (''a'', ''='', ''>b'')"
    "splitCompareTopLevel ''(a=b)'' = None"
    "splitCompareTopLevel (quoteChar # ''a=b'' @ [quoteChar]) = None"
    by code_simp+
  from splitCompareTopLevel_spec [of "''(a=1) <> b''", THEN conjunct2, rule_format, OF e] e others
  show ?thesis by simp
qed

end
